theory Spec2Isabelle
  imports Main
begin

section \<open>The sliding-tile engine of js/game_manager.js\<close>

text \<open>
  The theory embeds class \<open>Game\<close> of \<open>src/js/game_manager.js\<close>: every method becomes a
  function on an explicit record of the object's fields. Coordinates are \<open>int\<close> because
  the farthest-position search steps one cell outside the board, and board sizes are
  \<open>nat\<close>. Tile values and scores are \<open>int\<close>; the source computes them as doubles, which
  agree with the integers as long as the sums stay within \<open>2 ^ 53\<close>, and the theorem on the
  score carries that bound (\<open>scores_exact\<close>). The calls the engine makes on its two
  collaborators (storage and render) are appended to a log, so that "no callout" is a
  statement about that log.
\<close>

subsection \<open>Positions, tiles and the grid\<close>

type_synonym pos = "int \<times> int"

type_synonym tile_snapshot = "pos \<times> int"

text \<open>
  Modelled from the spec: \<open>js/tile.js\<close> is imported by the engine but is not among the
  sources. Section 3 of the spec gives a tile a value, a current position, a previous
  position and a merge provenance naming the two source tiles; the provenance is kept as
  two position/value snapshots (section 9). A new tile has neither a previous position nor
  a provenance.
\<close>

record tile =
  tile_pos :: pos
  tile_value :: int
  previousPosition :: "pos option"
  mergedFrom :: "(tile_snapshot \<times> tile_snapshot) option"

definition Tile :: "pos \<Rightarrow> int \<Rightarrow> tile" where
  "Tile position v =
     \<lparr>tile_pos = position, tile_value = v, previousPosition = None, mergedFrom = None\<rparr>"

definition savePosition :: "tile \<Rightarrow> tile" where
  "savePosition t = t\<lparr>previousPosition := Some (tile_pos t)\<rparr>"

definition updatePosition :: "tile \<Rightarrow> pos \<Rightarrow> tile" where
  "updatePosition t position = t\<lparr>tile_pos := position\<rparr>"

definition snapshot :: "tile \<Rightarrow> tile_snapshot" where
  "snapshot t = (tile_pos t, tile_value t)"

text \<open>
  Modelled from the spec: \<open>js/grid.js\<close> is imported by the engine but is not among the
  sources. Section 3 of the spec makes the grid a size and a mapping from positions to
  optional tiles; section 4.1 lists its operations. The engine itself writes
  \<open>this.grid.cells[x][y]\<close> (\<open>moveTile\<close>), which is the update of that mapping at \<open>(x, y)\<close>.
\<close>

record grid =
  grid_size :: nat
  cells :: "pos \<Rightarrow> tile option"

definition Grid :: "nat \<Rightarrow> grid" where
  "Grid n = \<lparr>grid_size = n, cells = (\<lambda>p. None)\<rparr>"

definition withinBounds :: "grid \<Rightarrow> pos \<Rightarrow> bool" where
  "withinBounds gr p =
     (0 \<le> fst p \<and> fst p < int (grid_size gr) \<and> 0 \<le> snd p \<and> snd p < int (grid_size gr))"

definition cellContent :: "grid \<Rightarrow> pos \<Rightarrow> tile option" where
  "cellContent gr p = (if withinBounds gr p then cells gr p else None)"

definition cellAvailable :: "grid \<Rightarrow> pos \<Rightarrow> bool" where
  "cellAvailable gr p = (cellContent gr p = None)"

definition insertTile :: "grid \<Rightarrow> tile \<Rightarrow> grid" where
  "insertTile gr t = gr\<lparr>cells := (cells gr)(tile_pos t := Some t)\<rparr>"

definition removeTile :: "grid \<Rightarrow> tile \<Rightarrow> grid" where
  "removeTile gr t = gr\<lparr>cells := (cells gr)(tile_pos t := None)\<rparr>"

definition all_cells :: "nat \<Rightarrow> pos list" where
  "all_cells n = concat (map (\<lambda>x. map (\<lambda>y. (int x, int y)) [0..<n]) [0..<n])"

definition eachCell :: "(tile \<Rightarrow> tile) \<Rightarrow> grid \<Rightarrow> grid" where
  "eachCell f gr =
     fold (\<lambda>p g. case cells g p of None \<Rightarrow> g | Some t \<Rightarrow> g\<lparr>cells := (cells g)(p := Some (f t))\<rparr>)
       (all_cells (grid_size gr)) gr"

definition availableCells :: "grid \<Rightarrow> pos list" where
  "availableCells gr = filter (\<lambda>p. cells gr p = None) (all_cells (grid_size gr))"

definition cellsAvailable :: "grid \<Rightarrow> bool" where
  "cellsAvailable gr = (availableCells gr \<noteq> [])"

text \<open>
  \<open>randomAvailableCell\<close> draws one of the empty cells; the draw is the argument \<open>k\<close>. The
  engine calls it only under \<open>cellsAvailable\<close>.
\<close>

definition randomAvailableCell :: "grid \<Rightarrow> nat \<Rightarrow> pos" where
  "randomAvailableCell gr k = availableCells gr ! (k mod length (availableCells gr))"

subsection \<open>The serialized state\<close>

text \<open>
  Modelled from the spec: the wire shape of section 6. A grid is written as its size and
  a size by size array, indexed \<open>[x][y]\<close>, of null or a tile's value and position; reading
  it back builds a tile from each entry and puts it at the entry's index.
\<close>

record serialized_grid =
  s_size :: nat
  s_cells :: "tile_snapshot option list list"

definition serialize_grid :: "grid \<Rightarrow> serialized_grid" where
  "serialize_grid gr =
     \<lparr>s_size = grid_size gr,
      s_cells = map (\<lambda>x. map (\<lambda>y. map_option snapshot (cells gr (int x, int y)))
                  [0..<grid_size gr]) [0..<grid_size gr]\<rparr>"

definition state_entry :: "tile_snapshot option list list \<Rightarrow> pos \<Rightarrow> tile_snapshot option" where
  "state_entry st p =
     (if 0 \<le> fst p \<and> nat (fst p) < length st \<and> 0 \<le> snd p \<and> nat (snd p) < length (st ! nat (fst p))
      then st ! nat (fst p) ! nat (snd p) else None)"

definition Grid_fromState :: "nat \<Rightarrow> tile_snapshot option list list \<Rightarrow> grid" where
  "Grid_fromState n st =
     \<lparr>grid_size = n,
      cells = (\<lambda>p. if 0 \<le> fst p \<and> fst p < int n \<and> 0 \<le> snd p \<and> snd p < int n
                  then map_option (\<lambda>e. Tile (fst e) (snd e)) (state_entry st p) else None)\<rparr>"

subsection \<open>The session object and its collaborators\<close>

text \<open>
  The name \<open>keepPlaying\<close> is used twice by class \<open>Game\<close>: it is a method of the prototype
  (line 22) and a field that \<open>setup\<close> assigns on the instance (lines 45 and 51). Reading
  \<open>this.keepPlaying\<close> finds the instance's own property when it has one, and the
  prototype's method otherwise. \<open>js_prop\<close> is what such a read finds.
\<close>

datatype js_prop = Method | Data bool

fun truthy :: "js_prop \<Rightarrow> bool" where
  "truthy Method = True"
| "truthy (Data b) = b"

record serialized =
  s_grid :: serialized_grid
  s_score :: int
  s_over :: bool
  s_won :: bool
  s_keepPlaying :: js_prop

text \<open>
  Modelled from the spec: the storage collaborator of section 6. It holds at most one
  saved state (\<open>getGameState\<close> returns what \<open>setGameState\<close> stored last, and nothing after
  \<open>clearGameState\<close>) and the best score.
\<close>

record storage =
  gameState :: "serialized option"
  bestScore :: int

record draw_metadata =
  m_score :: int
  m_over :: bool
  m_won :: bool
  m_bestScore :: int
  m_terminated :: bool

datatype callout =
    GetGameState
  | SetGameState serialized
  | ClearGameState
  | GetBestScore
  | SetBestScore int
  | Draw grid draw_metadata
  | ContinueGame

record game =
  render_size :: nat
  storage :: storage
  startTiles :: nat
  grid :: grid
  score :: int
  over :: bool
  won :: bool
  keepPlaying :: js_prop
  calls :: "callout list"

text \<open>One call of \<open>Math.random() < 0.9\<close> and one draw of an empty cell.\<close>

record random_draw =
  below_09 :: bool
  cell_choice :: nat

datatype error = TypeError

subsection \<open>Methods of class Game\<close>

definition getGameState :: "game \<Rightarrow> serialized option \<times> game" where
  "getGameState g = (gameState (storage g), g\<lparr>calls := calls g @ [GetGameState]\<rparr>)"

definition setGameState :: "serialized \<Rightarrow> game \<Rightarrow> game" where
  "setGameState st g =
     g\<lparr>storage := (storage g)\<lparr>gameState := Some st\<rparr>, calls := calls g @ [SetGameState st]\<rparr>"

definition clearGameState :: "game \<Rightarrow> game" where
  "clearGameState g =
     g\<lparr>storage := (storage g)\<lparr>gameState := None\<rparr>, calls := calls g @ [ClearGameState]\<rparr>"

definition getBestScore :: "game \<Rightarrow> int \<times> game" where
  "getBestScore g = (bestScore (storage g), g\<lparr>calls := calls g @ [GetBestScore]\<rparr>)"

definition setBestScore :: "int \<Rightarrow> game \<Rightarrow> game" where
  "setBestScore n g =
     g\<lparr>storage := (storage g)\<lparr>bestScore := n\<rparr>, calls := calls g @ [SetBestScore n]\<rparr>"

definition continueGame :: "game \<Rightarrow> game" where
  "continueGame g = g\<lparr>calls := calls g @ [ContinueGame]\<rparr>"

text \<open>Lines 28-30.\<close>

definition isGameTerminated :: "game \<Rightarrow> bool" where
  "isGameTerminated g = (over g \<or> (won g \<and> \<not> truthy (keepPlaying g)))"

text \<open>Lines 101-109.\<close>

definition serialize :: "game \<Rightarrow> serialized" where
  "serialize g =
     \<lparr>s_grid = serialize_grid (grid g), s_score = score g, s_over = over g, s_won = won g,
      s_keepPlaying = keepPlaying g\<rparr>"

text \<open>Lines 79-98.\<close>

definition draw :: "game \<Rightarrow> game" where
  "draw g =
     (let (best, g1) = getBestScore g;
          g2 = (if best < score g1 then setBestScore (score g1) g1 else g1);
          g3 = (if over g2 then clearGameState g2 else setGameState (serialize g2) g2);
          (best', g4) = getBestScore g3
      in g4\<lparr>calls := calls g4 @
            [Draw (grid g4)
               \<lparr>m_score = score g4, m_over = over g4, m_won = won g4, m_bestScore = best',
                m_terminated = isGameTerminated g4\<rparr>]\<rparr>)"

text \<open>Lines 69-76.\<close>

definition addRandomTile :: "random_draw \<Rightarrow> game \<Rightarrow> game" where
  "addRandomTile r g =
     (if cellsAvailable (grid g)
      then let v = (if below_09 r then 2 else 4);
               t = Tile (randomAvailableCell (grid g) (cell_choice r)) v
           in g\<lparr>grid := insertTile (grid g) t\<rparr>
      else g)"

text \<open>Lines 62-66; the \<open>i\<close>-th iteration uses the \<open>i\<close>-th draw.\<close>

fun addStartTiles_loop :: "(nat \<Rightarrow> random_draw) \<Rightarrow> nat \<Rightarrow> nat \<Rightarrow> game \<Rightarrow> game" where
  "addStartTiles_loop rs i 0 g = g"
| "addStartTiles_loop rs i (Suc n) g = addStartTiles_loop rs (Suc i) n (addRandomTile (rs i) g)"

definition addStartTiles :: "(nat \<Rightarrow> random_draw) \<Rightarrow> game \<Rightarrow> game" where
  "addStartTiles rs g = addStartTiles_loop rs 0 (startTiles g) g"

text \<open>Lines 33-59, method \<open>setup\<close>.\<close>

definition setup_game :: "(nat \<Rightarrow> random_draw) \<Rightarrow> game \<Rightarrow> game" where
  "setup_game rs g =
     (let (previousState, g1) = getGameState g
      in draw
           (case previousState of
              Some st \<Rightarrow>
                g1\<lparr>grid := Grid_fromState (s_size (s_grid st)) (s_cells (s_grid st)),
                   score := s_score st, over := s_over st, won := s_won st,
                   keepPlaying := s_keepPlaying st\<rparr>
            | None \<Rightarrow>
                addStartTiles rs
                  (g1\<lparr>grid := Grid (render_size g1), score := 0, over := False, won := False,
                      keepPlaying := Data False\<rparr>)))"

text \<open>
  Lines 6-12. Before \<open>setup\<close> runs, the new object has the three constructor fields only:
  \<open>keepPlaying\<close> still resolves to the prototype's method, and the fields that \<open>setup\<close>
  assigns on both of its branches are given the values of its fresh branch.
\<close>

definition new_Game :: "nat \<Rightarrow> storage \<Rightarrow> nat \<Rightarrow> (nat \<Rightarrow> random_draw) \<Rightarrow> game" where
  "new_Game rsize sto n rs =
     setup_game rs
       \<lparr>render_size = rsize, storage = sto, startTiles = n, grid = Grid rsize, score = 0,
        over = False, won = False, keepPlaying = Method, calls = []\<rparr>"

text \<open>Lines 15-19.\<close>

definition restart :: "(nat \<Rightarrow> random_draw) \<Rightarrow> game \<Rightarrow> game" where
  "restart rs g = setup_game rs (continueGame (clearGameState g))"

text \<open>
  Lines 22-25: the body of the prototype's method, and a call \<open>g.keepPlaying()\<close>, which
  runs that body only when the property read finds the method; a boolean is not callable.
\<close>

definition keepPlaying_method :: "game \<Rightarrow> game" where
  "keepPlaying_method g = continueGame (g\<lparr>keepPlaying := Data True\<rparr>)"

definition call_keepPlaying :: "game \<Rightarrow> error + game" where
  "call_keepPlaying g =
     (case keepPlaying g of Method \<Rightarrow> Inr (keepPlaying_method g) | Data b \<Rightarrow> Inl TypeError)"

text \<open>Lines 112-120.\<close>

definition prepareTiles :: "game \<Rightarrow> game" where
  "prepareTiles g = g\<lparr>grid := eachCell (\<lambda>t. savePosition (t\<lparr>mergedFrom := None\<rparr>)) (grid g)\<rparr>"

text \<open>
  Lines 123-127. Line 124 clears the cell at the tile's stored position and line 125
  stores the tile in the target cell. The update below is what the three assignments do
  when the stored position is the cell that holds the tile, which is the grid invariant
  of section 3 of the spec (\<open>grid_consistent\<close>); the theorems about moves that relocate
  tiles assume that invariant, and lemmas \<open>fresh_setup_invariants\<close> and \<open>move_consistent\<close>
  establish and keep it. With a stored position off the board line 124 indexes a row
  that does not exist and the source raises a type error; such grids are not covered.
\<close>

definition moveTile :: "game \<Rightarrow> tile \<Rightarrow> pos \<Rightarrow> game" where
  "moveTile g t cell =
     g\<lparr>grid := (grid g)\<lparr>cells := ((cells (grid g))(tile_pos t := None))
                                   (cell := Some (updatePosition t cell))\<rparr>\<rparr>"

text \<open>Lines 190-200; the input source emits the four directions 0 to 3.\<close>

datatype direction = Up | Right | Down | Left

fun getVector :: "direction \<Rightarrow> pos" where
  "getVector Up = (0, -1)"
| "getVector Right = (1, 0)"
| "getVector Down = (0, 1)"
| "getVector Left = (-1, 0)"

text \<open>Lines 203-216.\<close>

definition buildTraversals :: "pos \<Rightarrow> nat \<Rightarrow> int list \<times> int list" where
  "buildTraversals vector n =
     (let xs = map int [0..<n]; ys = map int [0..<n]
      in (if fst vector = 1 then rev xs else xs, if snd vector = 1 then rev ys else ys))"

text \<open>
  Lines 218-231. The do-while loop steps until it leaves the board or meets a tile. With
  the zero vector and an empty starting cell it never ends, so not returning is the value
  \<open>None\<close>.
\<close>

partial_function (option) findFarthestPosition :: "grid \<Rightarrow> pos \<Rightarrow> pos \<Rightarrow> (pos \<times> pos) option" where
  "findFarthestPosition gr previous vector =
     (let cell = (fst previous + fst vector, snd previous + snd vector)
      in if withinBounds gr cell \<and> cellAvailable gr cell
         then findFarthestPosition gr cell vector
         else Some (previous, cell))"

declare findFarthestPosition.simps [code]

definition positionsEqual :: "pos \<Rightarrow> pos \<Rightarrow> bool" where
  "positionsEqual first second = (fst first = fst second \<and> snd first = snd second)"

text \<open>
  Lines 238-261. The two outer loops run while \<open>x < this.size\<close> and \<open>y < this.size\<close>.
  Class \<open>Game\<close> never assigns a property \<open>size\<close> (the board size is \<open>this.render.size\<close>
  everywhere else), so \<open>this.size\<close> reads as undefined, and a comparison
  \<open>x < undefined\<close> is false. The loops are modelled for any bound, defined or not.
\<close>

definition this_size :: "game \<Rightarrow> int option" where
  "this_size g = None"

definition js_less :: "int \<Rightarrow> int option \<Rightarrow> bool" where
  "js_less a b = (case b of None \<Rightarrow> False | Some n \<Rightarrow> a < n)"

definition directions :: "direction list" where
  "directions = [Up, Right, Down, Left]"

definition tile_matches_at :: "game \<Rightarrow> int \<Rightarrow> int \<Rightarrow> bool" where
  "tile_matches_at g x y =
     (case cellContent (grid g) (x, y) of
        None \<Rightarrow> False
      | Some t \<Rightarrow>
          list_ex (\<lambda>d. case cellContent (grid g) (x + fst (getVector d), y + snd (getVector d)) of
                         None \<Rightarrow> False
                       | Some other \<Rightarrow> tile_value other = tile_value t)
            directions)"

function tileMatches_y :: "int option \<Rightarrow> game \<Rightarrow> int \<Rightarrow> int \<Rightarrow> bool" where
  "tileMatches_y bound g x y =
     (if js_less y bound
      then (if tile_matches_at g x y then True else tileMatches_y bound g x (y + 1))
      else False)"
  by pat_completeness auto
termination
  by (relation "measure (\<lambda>(bound, g, x, y). case bound of None \<Rightarrow> 0 | Some n \<Rightarrow> nat (n - y))")
     (auto simp: js_less_def split: option.splits)

function tileMatches_x :: "int option \<Rightarrow> game \<Rightarrow> int \<Rightarrow> bool" where
  "tileMatches_x bound g x =
     (if js_less x bound
      then (if tileMatches_y bound g x 0 then True else tileMatches_x bound g (x + 1))
      else False)"
  by pat_completeness auto
termination
  by (relation "measure (\<lambda>(bound, g, x). case bound of None \<Rightarrow> 0 | Some n \<Rightarrow> nat (n - x))")
     (auto simp: js_less_def split: option.splits)

definition tileMatchesAvailable :: "game \<Rightarrow> bool" where
  "tileMatchesAvailable g = tileMatches_x (this_size g) g 0"

text \<open>Lines 233-235.\<close>

definition movesAvailable :: "game \<Rightarrow> bool" where
  "movesAvailable g = (cellsAvailable (grid g) \<or> tileMatchesAvailable g)"

subsection \<open>The move\<close>

text \<open>
  Line 152, the test that decides between a merge and a plain relocation:
  \<open>next && next.value === tile.value && !next.mergedFrom\<close>. The result is the tile to
  merge into, when the test passes.
\<close>

definition merge_target :: "tile option \<Rightarrow> tile \<Rightarrow> tile option" where
  "merge_target nxt t =
     (case nxt of
        None \<Rightarrow> None
      | Some n \<Rightarrow> if tile_value n = tile_value t \<and> mergedFrom n = None then Some n else None)"

text \<open>
  Lines 153-166, the merge of \<open>t\<close> into the tile \<open>n\<close> found at \<open>position\<close>. The result
  is the session and the moving tile \<open>t\<close> as line 171 sees it afterwards. The provenance
  refers to \<open>t\<close>, whose position line 160 converges to the target, and to \<open>n\<close>. Line 163
  adds doubles; the integer sum below is that sum while it stays within \<open>2 ^ 53\<close>.
\<close>

definition merge_tiles :: "game \<Rightarrow> tile \<Rightarrow> tile \<Rightarrow> pos \<Rightarrow> game \<times> tile" where
  "merge_tiles g t n position =
     (let t' = updatePosition t position;
          merged = (Tile position (tile_value t * 2))\<lparr>mergedFrom := Some (snapshot t', snapshot n)\<rparr>;
          g1 = g\<lparr>grid := removeTile (insertTile (grid g) merged) t\<rparr>;
          g2 = g1\<lparr>score := score g1 + tile_value merged\<rparr>;
          g3 = (if tile_value merged = 2048 then g2\<lparr>won := True\<rparr> else g2)
      in (g3, t'))"

text \<open>
  Lines 144-174, the body of the inner \<open>forEach\<close> at one cell. The state of the loop is
  the session and the local variable \<open>moved\<close>.
\<close>

definition move_cell :: "pos \<Rightarrow> pos \<Rightarrow> game \<times> bool \<Rightarrow> (game \<times> bool) option" where
  "move_cell vector cell s =
     (case cellContent (grid (fst s)) cell of
        None \<Rightarrow> Some s
      | Some t \<Rightarrow>
          (case findFarthestPosition (grid (fst s)) cell vector of
             None \<Rightarrow> None
           | Some positions \<Rightarrow>
               (let nxt = cellContent (grid (fst s)) (snd positions);
                    r = (case merge_target nxt t of
                           Some n \<Rightarrow> merge_tiles (fst s) t n (snd positions)
                         | None \<Rightarrow>
                             (moveTile (fst s) t (fst positions), updatePosition t (fst positions)))
                in Some (fst r, (if \<not> positionsEqual cell (tile_pos (snd r)) then True else snd s)))))"

text \<open>\<open>forEach\<close> over a list, for a body that may not return.\<close>

fun forEach :: "('a \<Rightarrow> 's \<Rightarrow> 's option) \<Rightarrow> 'a list \<Rightarrow> 's \<Rightarrow> 's option" where
  "forEach f [] s = Some s"
| "forEach f (x # xs) s = (case f x s of None \<Rightarrow> None | Some s' \<Rightarrow> forEach f xs s')"

text \<open>Lines 142-176, the two nested loops.\<close>

definition traverse :: "pos \<Rightarrow> int list \<times> int list \<Rightarrow> game \<times> bool \<Rightarrow> (game \<times> bool) option" where
  "traverse vector traversals s =
     forEach (\<lambda>x. forEach (\<lambda>y. move_cell vector (x, y)) (snd traversals)) (fst traversals) s"

text \<open>Lines 130-187.\<close>

definition move :: "direction \<Rightarrow> random_draw \<Rightarrow> game \<Rightarrow> game option" where
  "move d r g =
     (if isGameTerminated g then Some g
      else
        (let vector = getVector d;
             traversals = buildTraversals vector (render_size g)
         in case traverse vector traversals (prepareTiles g, False) of
              None \<Rightarrow> None
            | Some s \<Rightarrow>
                (if snd s
                 then (let g1 = addRandomTile r (fst s);
                           g2 = (if \<not> movesAvailable g1 then g1\<lparr>over := True\<rparr> else g1)
                       in Some (draw g2))
                 else Some (fst s))))"

text \<open>A sequence of moves, each with its own random draw.\<close>

fun moves :: "(direction \<times> random_draw) list \<Rightarrow> game \<Rightarrow> game option" where
  "moves [] g = Some g"
| "moves (m # ms) g = (case move (fst m) (snd m) g of None \<Rightarrow> None | Some g' \<Rightarrow> moves ms g')"

section \<open>Notions used in the statements\<close>

text \<open>
  The cells in the order in which the two nested loops of \<open>move\<close> visit them.
\<close>

definition traversal_cells :: "int list \<times> int list \<Rightarrow> pos list" where
  "traversal_cells tr = concat (map (\<lambda>x. map (\<lambda>y. (x, y)) (snd tr)) (fst tr))"

text \<open>The cell reached from \<open>c\<close> after \<open>k\<close> steps along a vector.\<close>

definition steps_from :: "pos \<Rightarrow> pos \<Rightarrow> nat \<Rightarrow> pos" where
  "steps_from c vector k = (fst c + int k * fst vector, snd c + int k * snd vector)"

text \<open>What a board shows at a position: the value and position of the tile there.\<close>

definition board :: "grid \<Rightarrow> pos \<Rightarrow> tile_snapshot option" where
  "board gr p = map_option snapshot (cellContent gr p)"

text \<open>
  The grid invariant of section 3 of the spec: a tile on the board stores the coordinates
  of the cell that holds it.
\<close>

definition grid_consistent :: "grid \<Rightarrow> bool" where
  "grid_consistent gr =
     list_all (\<lambda>p. case cells gr p of None \<Rightarrow> True | Some t \<Rightarrow> tile_pos t = p)
       (all_cells (grid_size gr))"

text \<open>Every tile on the board has a positive value.\<close>

definition tiles_positive :: "grid \<Rightarrow> bool" where
  "tiles_positive gr =
     list_all (\<lambda>p. case cells gr p of None \<Rightarrow> True | Some t \<Rightarrow> 0 < tile_value t)
       (all_cells (grid_size gr))"

text \<open>The part of a session that the traversal of \<open>move\<close> never writes.\<close>

definition untouched ::
  "game \<Rightarrow> bool \<times> callout list \<times> storage \<times> js_prop \<times> nat \<times> nat \<times> nat" where
  "untouched g =
     (over g, calls g, storage g, keepPlaying g, render_size g, startTiles g, grid_size (grid g))"

text \<open>What \<open>prepareTiles\<close> does to one tile.\<close>

definition prepared :: "tile \<Rightarrow> tile" where
  "prepared t = savePosition (t\<lparr>mergedFrom := None\<rparr>)"

text \<open>
  The step of the traversal at cell \<open>c\<close> takes the merge branch (line 152) in the session
  \<open>g\<close>; and: having visited the cells \<open>pre\<close>, a move of \<open>g\<close> in direction \<open>d\<close> merges the
  tile at \<open>c\<close>.
\<close>

definition merges_at :: "pos \<Rightarrow> pos \<Rightarrow> game \<Rightarrow> bool" where
  "merges_at vector c g =
     (case cellContent (grid g) c of
        None \<Rightarrow> False
      | Some t \<Rightarrow>
          (case findFarthestPosition (grid g) c vector of
             None \<Rightarrow> False
           | Some positions \<Rightarrow> merge_target (cellContent (grid g) (snd positions)) t \<noteq> None))"

definition merge_occurs :: "direction \<Rightarrow> game \<Rightarrow> pos list \<Rightarrow> pos \<Rightarrow> bool" where
  "merge_occurs d g pre c =
     (case forEach (move_cell (getVector d)) pre (prepareTiles g, False) of
        None \<Rightarrow> False
      | Some s \<Rightarrow> merges_at (getVector d) c (fst s))"

text \<open>The traversal of a move ends with \<open>moved\<close> still false.\<close>

definition no_tile_moved :: "direction \<Rightarrow> game \<Rightarrow> bool" where
  "no_tile_moved d g =
     (map_option snd
        (traverse (getVector d) (buildTraversals (getVector d) (render_size g))
           (prepareTiles g, False)) = Some False)"

text \<open>
  \<open>q\<close> lies ahead of \<open>c\<close>: at least one step from it along the vector. And the order
  of the traversal: the loops that \<open>buildTraversals\<close> sets up visit \<open>p\<close> before \<open>q\<close>.
\<close>

definition ahead :: "pos \<Rightarrow> pos \<Rightarrow> pos \<Rightarrow> bool" where
  "ahead vector c q = (\<exists>k. q = steps_from c vector (Suc k))"

definition visited_before :: "pos \<Rightarrow> pos \<Rightarrow> pos \<Rightarrow> bool" where
  "visited_before vector p q =
     ((if fst vector = 1 then fst q < fst p else fst p < fst q)
      \<or> (fst p = fst q \<and> (if snd vector = 1 then snd q < snd p else snd p < snd q)))"

text \<open>The cell holds a tile that carries a merge provenance.\<close>

definition tagged :: "grid \<Rightarrow> pos \<Rightarrow> bool" where
  "tagged gr p = (case cellContent gr p of None \<Rightarrow> False | Some t \<Rightarrow> mergedFrom t \<noteq> None)"


text \<open>
  The tile at cell \<open>c\<close>, if there is one, can neither slide nor merge along the vector:
  the farthest position it can reach is its own cell and the cell after that holds no
  tile it may merge into. A move relocates no tile and merges none when this holds of
  every cell it visits, on the grid as \<open>prepareTiles\<close> leaves it.
\<close>

definition stays_put :: "pos \<Rightarrow> pos \<Rightarrow> grid \<Rightarrow> bool" where
  "stays_put vector c gr =
     (case cellContent gr c of
        None \<Rightarrow> True
      | Some t \<Rightarrow>
          (case findFarthestPosition gr c vector of
             None \<Rightarrow> False
           | Some positions \<Rightarrow>
               fst positions = c \<and> merge_target (cellContent gr (snd positions)) t = None))"

definition nothing_moves :: "direction \<Rightarrow> game \<Rightarrow> bool" where
  "nothing_moves d g =
     list_all (\<lambda>c. stays_put (getVector d) c (grid (prepareTiles g)))
       (traversal_cells (buildTraversals (getVector d) (render_size g)))"

text \<open>
  JavaScript numbers are doubles. The integers up to \<open>2 ^ 53\<close> are doubles, and the sum of
  two non-negative ones is computed exactly as long as it stays in that range. A run of
  moves stays in the range when it starts with a non-negative score and ends with a
  score of at most \<open>2 ^ 53\<close>.
\<close>

definition max_exact :: int where
  "max_exact = 2 ^ 53"

definition scores_exact :: "(direction \<times> random_draw) list \<Rightarrow> game \<Rightarrow> bool" where
  "scores_exact ms g =
     (0 \<le> score g \<and> (case moves ms g of None \<Rightarrow> True | Some g' \<Rightarrow> score g' \<le> max_exact))"

section \<open>Concrete sessions\<close>

text \<open>
  Sessions on a board of size 4, each restored by the constructor from a saved state.
  A saved board lists its columns \<open>x = 0, 1, 2, 3\<close>, each from \<open>y = 0\<close> to \<open>y = 3\<close>.
\<close>

definition entry :: "int \<Rightarrow> int \<Rightarrow> int \<Rightarrow> tile_snapshot option" where
  "entry x y v = Some ((x, y), v)"

definition fixed_draw :: random_draw where
  "fixed_draw = \<lparr>below_09 = True, cell_choice = 0\<rparr>"

definition saved :: "tile_snapshot option list list \<Rightarrow> bool \<Rightarrow> bool \<Rightarrow> serialized" where
  "saved cs ov wn =
     \<lparr>s_grid = \<lparr>s_size = 4, s_cells = cs\<rparr>, s_score = 100, s_over = ov, s_won = wn,
      s_keepPlaying = Data False\<rparr>"

definition restored :: "serialized \<Rightarrow> game" where
  "restored st = new_Game 4 \<lparr>gameState = Some st, bestScore = 0\<rparr> 2 (\<lambda>i. fixed_draw)"

text \<open>A board on which a move to the left merges three pairs.\<close>

definition merging_cells :: "tile_snapshot option list list" where
  "merging_cells =
     [[entry 0 0 2, None, entry 0 2 4, entry 0 3 8],
      [entry 1 0 2, None, entry 1 2 4, entry 1 3 16],
      [None, entry 2 1 2, entry 2 2 4, None],
      [entry 3 0 4, None, entry 3 2 4, entry 3 3 2]]"

text \<open>A board on which a move upwards changes nothing.\<close>

definition settled_cells :: "tile_snapshot option list list" where
  "settled_cells =
     [[entry 0 0 2, entry 0 1 4, None, None],
      [entry 1 0 4, entry 1 1 2, None, None],
      [None, None, None, None],
      [entry 3 0 8, None, None, None]]"

definition merging_game :: game where
  "merging_game = restored (saved merging_cells False False)"

definition settled_game :: game where
  "settled_game = restored (saved settled_cells False False)"

definition lost_game :: game where
  "lost_game = restored (saved settled_cells True False)"

definition won_game :: game where
  "won_game = restored (saved settled_cells False True)"

text \<open>
  The cells that a move of \<open>merging_game\<close> to the left visits before and after \<open>(1, 0)\<close>,
  where it merges for the first time.
\<close>

definition merging_pre :: "pos list" where
  "merging_pre = [(0, 0), (0, 1), (0, 2), (0, 3)]"

definition merging_post :: "pos list" where
  "merging_post = [(1, 1), (1, 2), (1, 3), (2, 0), (2, 1), (2, 2), (2, 3), (3, 0), (3, 1), (3, 2), (3, 3)]"

text \<open>
  A board with one empty cell that a move to the left fills up, and the full board that
  results; in both, the rows \<open>y = 1\<close> and \<open>y = 2\<close> are equal, so every tile of one has an
  equal neighbour in the other.
\<close>

definition crowded_cells :: "tile_snapshot option list list" where
  "crowded_cells =
     [[None, entry 0 1 16, entry 0 2 16, entry 0 3 2],
      [entry 1 0 2, entry 1 1 32, entry 1 2 32, entry 1 3 4],
      [entry 2 0 4, entry 2 1 64, entry 2 2 64, entry 2 3 8],
      [entry 3 0 8, entry 3 1 128, entry 3 2 128, entry 3 3 16]]"

definition full_cells :: "tile_snapshot option list list" where
  "full_cells =
     [[entry 0 0 2, entry 0 1 16, entry 0 2 16, entry 0 3 2],
      [entry 1 0 4, entry 1 1 32, entry 1 2 32, entry 1 3 4],
      [entry 2 0 8, entry 2 1 64, entry 2 2 64, entry 2 3 8],
      [entry 3 0 2, entry 3 1 128, entry 3 2 128, entry 3 3 16]]"

definition crowded_game :: game where
  "crowded_game = restored (saved crowded_cells False False)"

definition full_game :: game where
  "full_game = restored (saved full_cells False False)"

text \<open>A session constructed with nothing in the storage.\<close>

definition fresh_game :: game where
  "fresh_game = new_Game 4 \<lparr>gameState = None, bestScore = 0\<rparr> 2 (\<lambda>i. fixed_draw)"

text \<open>
  Another session, with a board and a score of its own, whose storage holds the
  serialized state of \<open>merging_game\<close>.
\<close>

definition other_session :: game where
  "other_session = fresh_game\<lparr>storage := \<lparr>gameState = Some (serialize merging_game), bestScore = 7\<rparr>\<rparr>"

section \<open>Lemmas about the model\<close>

subsection \<open>The termination check\<close>

lemma tileMatchesAvailable_False: "tileMatchesAvailable g = False"
  by (simp add: tileMatchesAvailable_def js_less_def this_size_def)

lemma movesAvailable_cellsAvailable: "movesAvailable g = cellsAvailable (grid g)"
  by (simp add: movesAvailable_def tileMatchesAvailable_False)

subsection \<open>The cells of the board\<close>

lemma mem_all_cells: "p \<in> set (all_cells n) \<longleftrightarrow> (\<exists>x<n. \<exists>y<n. p = (int x, int y))"
  by (force simp: all_cells_def)

lemma set_all_cells:
  "p \<in> set (all_cells n) \<longleftrightarrow> 0 \<le> fst p \<and> fst p < int n \<and> 0 \<le> snd p \<and> snd p < int n"
proof
  assume "p \<in> set (all_cells n)"
  then show "0 \<le> fst p \<and> fst p < int n \<and> 0 \<le> snd p \<and> snd p < int n"
    by (auto simp: mem_all_cells)
next
  assume b: "0 \<le> fst p \<and> fst p < int n \<and> 0 \<le> snd p \<and> snd p < int n"
  then have "nat (fst p) < n" "nat (snd p) < n" by linarith+
  moreover from b have "p = (int (nat (fst p)), int (nat (snd p)))"
    by (simp add: prod_eq_iff)
  ultimately show "p \<in> set (all_cells n)"
    unfolding mem_all_cells by blast
qed

lemma in_all_cells: "p \<in> set (all_cells (grid_size gr)) \<longleftrightarrow> withinBounds gr p"
  by (simp add: set_all_cells withinBounds_def)

lemma cellsAvailable_iff: "cellsAvailable gr \<longleftrightarrow> (\<exists>p. withinBounds gr p \<and> cells gr p = None)"
  by (simp add: cellsAvailable_def availableCells_def filter_empty_conv Bex_def in_all_cells del: split_paired_Ex)

subsection \<open>Terminated sessions and draw\<close>

lemma isGameTerminated_move: "isGameTerminated g \<Longrightarrow> move d r g = Some g"
  by (simp add: move_def)

lemma isGameTerminated_moves: "isGameTerminated g \<Longrightarrow> moves ms g = Some g"
  by (induction ms) (simp_all add: isGameTerminated_move)

lemma draw_fields:
  "grid (draw g) = grid g" "score (draw g) = score g" "over (draw g) = over g" "won (draw g) = won g"
  "keepPlaying (draw g) = keepPlaying g" "render_size (draw g) = render_size g"
  "startTiles (draw g) = startTiles g"
  by (simp_all add: draw_def getBestScore_def setBestScore_def clearGameState_def setGameState_def
      Let_def split: prod.splits)


lemma draw_calls:
  "calls (draw g) = calls g @ [GetBestScore] @ (if bestScore (storage g) < score g then [SetBestScore (score g)] else [])
      @ [if over g then ClearGameState else SetGameState (serialize g)] @ [GetBestScore,
       Draw (grid g) \<lparr>m_score = score g, m_over = over g, m_won = won g,
          m_bestScore = (if bestScore (storage g) < score g then score g else bestScore (storage g)),
          m_terminated = isGameTerminated g\<rparr>]"
  by (simp add: draw_def getBestScore_def setBestScore_def clearGameState_def setGameState_def
      serialize_def isGameTerminated_def Let_def split: prod.splits)

subsection \<open>The farthest-position search\<close>

text \<open>
  The search returns for every vector but the zero vector, and its result lies a
  number of steps along the vector from the starting cell.
\<close>

lemma ffp_returns:
  assumes "vector \<noteq> (0, 0)"
  shows "\<exists>r. findFarthestPosition gr c vector = Some r"
proof -
  define m where "m = (\<lambda>p::pos. nat (if 0 < fst vector then int (grid_size gr) - fst p
      else if fst vector < 0 then fst p + 1
      else if 0 < snd vector then int (grid_size gr) - snd p else snd p + 1))"
  show ?thesis
  proof (induction "m c" arbitrary: c rule: less_induct)
    case less
    let ?cell = "(fst c + fst vector, snd c + snd vector)"
    show ?case
    proof (cases "withinBounds gr ?cell \<and> cellAvailable gr ?cell")
      case True
      from True have wb: "withinBounds gr ?cell" by simp
      have "m ?cell < m c"
        using assms wb unfolding m_def withinBounds_def
        by (cases vector) (auto split: if_splits)
      from less[OF this] obtain r where "findFarthestPosition gr ?cell vector = Some r" by blast
      with True show ?thesis
        by (subst findFarthestPosition.simps) (simp add: Let_def del: split_paired_Ex)
    next
      case False
      then show ?thesis
        by (subst findFarthestPosition.simps) (auto simp add: Let_def)
    qed
  qed
qed

lemma ffp_result:
  "findFarthestPosition gr c vector = Some r \<Longrightarrow>
     \<exists>k. fst r = steps_from c vector k \<and> snd r = steps_from c vector (Suc k) \<and>
         \<not> (withinBounds gr (snd r) \<and> cellAvailable gr (snd r)) \<and>
         (k = 0 \<or> (withinBounds gr (fst r) \<and> cellAvailable gr (fst r)))"
proof (induction gr c vector r rule: findFarthestPosition.raw_induct[rotated, consumes 1])
  case (1 ffp gr previous vector r)
  let ?cell = "(fst previous + fst vector, snd previous + snd vector)"
  show ?case
  proof (cases "withinBounds gr ?cell \<and> cellAvailable gr ?cell")
    case True
    with 1(2) have "ffp gr ?cell vector = Some r" by (simp add: Let_def)
    from 1(1)[OF this] obtain k where k:
      "fst r = steps_from ?cell vector k" "snd r = steps_from ?cell vector (Suc k)"
      "\<not> (withinBounds gr (snd r) \<and> cellAvailable gr (snd r))"
      "k = 0 \<or> (withinBounds gr (fst r) \<and> cellAvailable gr (fst r))"
      by blast
    have shift: "\<And>j. steps_from ?cell vector j = steps_from previous vector (Suc j)"
      by (simp add: steps_from_def algebra_simps)
    have "withinBounds gr (fst r) \<and> cellAvailable gr (fst r)"
      using k(1,4) True by (cases "k = 0") (auto simp: steps_from_def)
    with k(2,3) k(1) show ?thesis
      unfolding shift by blast
  next
    case False
    with 1(2) have "r = (previous, ?cell)" by (auto simp add: Let_def)
    with False show ?thesis
      by (intro exI[of _ 0]) (simp add: steps_from_def)
  qed
qed

subsection \<open>The two predicates on grids\<close>

lemma grid_consistent_iff:
  "grid_consistent gr \<longleftrightarrow> (\<forall>p t. cellContent gr p = Some t \<longrightarrow> tile_pos t = p)"
  unfolding grid_consistent_def list_all_iff Ball_def in_all_cells cellContent_def
  by (auto split: option.splits)

lemma tiles_positive_iff:
  "tiles_positive gr \<longleftrightarrow> (\<forall>p t. cellContent gr p = Some t \<longrightarrow> 0 < tile_value t)"
  unfolding tiles_positive_def list_all_iff Ball_def in_all_cells cellContent_def
  by (auto split: option.splits)

subsection \<open>Loops over lists\<close>

lemma forEach_append:
  "forEach f (xs @ ys) s = (case forEach f xs s of None \<Rightarrow> None | Some s' \<Rightarrow> forEach f ys s')"
  by (induction xs arbitrary: s) (auto split: option.splits)

lemma forEach_map_aux: "forEach f (map h xs) s = forEach (\<lambda>x. f (h x)) xs s"
  by (induction xs arbitrary: s) (auto split: option.splits)

lemma forEach_map: "forEach f (map h xs) = forEach (\<lambda>x. f (h x)) xs"
  by (rule ext) (rule forEach_map_aux)

lemma forEach_concat:
  "forEach f (concat xss) s = forEach (\<lambda>xs. forEach f xs) xss s"
  by (induction xss arbitrary: s) (auto simp: forEach_append split: option.splits)

lemma traverse_flat: "traverse vector tr s = forEach (move_cell vector) (traversal_cells tr) s"
  by (simp add: traverse_def traversal_cells_def forEach_concat forEach_map)

lemma forEach_split:
  "forEach f (pre @ c # post) s = Some s' \<longleftrightarrow>
     (\<exists>s1 s2. forEach f pre s = Some s1 \<and> f c s1 = Some s2 \<and> forEach f post s2 = Some s')"
  by (auto simp: forEach_append split: option.splits)

lemma forEach_invariant:
  assumes "forEach f xs s = Some s'" and "I s"
    and "\<And>x a b. x \<in> set xs \<Longrightarrow> I a \<Longrightarrow> f x a = Some b \<Longrightarrow> I b"
  shows "I s'"
  using assms
proof (induction xs arbitrary: s)
  case Nil
  then show ?case by simp
next
  case (Cons x xs)
  from Cons.prems(1) obtain b where b: "f x s = Some b" "forEach f xs b = Some s'"
    by (auto split: option.splits)
  have "I b" using Cons.prems(3)[of x s b] Cons.prems(2) b(1) by simp
  show ?case
  proof (rule Cons.IH[OF b(2) \<open>I b\<close>])
    fix y a c
    assume "y \<in> set xs" "I a" "f y a = Some c"
    then show "I c" using Cons.prems(3)[of y a c] by simp
  qed
qed

lemma forEach_returns:
  assumes "\<And>x a. x \<in> set xs \<Longrightarrow> \<exists>b. f x a = Some b"
  shows "\<exists>s'. forEach f xs s = Some s'"
  using assms
proof (induction xs arbitrary: s)
  case Nil
  then show ?case by simp
next
  case (Cons x xs)
  from Cons.prems[of x s] obtain b where "f x s = Some b" by auto
  moreover from Cons.IH[of b] Cons.prems obtain s' where "forEach f xs b = Some s'" by auto
  ultimately show ?case by simp
qed

subsection \<open>Every move returns\<close>

lemma getVector_nonzero: "getVector d \<noteq> (0, 0)"
  by (cases d) simp_all

lemma move_cell_returns: "vector \<noteq> (0, 0) \<Longrightarrow> \<exists>b. move_cell vector c s = Some b"
  using ffp_returns[of vector "grid (fst s)" c]
  by (auto simp: move_cell_def Let_def split: option.splits)

lemma traverse_returns: "vector \<noteq> (0, 0) \<Longrightarrow> \<exists>b. traverse vector tr s = Some b"
  unfolding traverse_flat by (rule forEach_returns) (rule move_cell_returns)

lemma move_returns: "\<exists>g'. move d r g = Some g'"
  using traverse_returns[OF getVector_nonzero, of d "buildTraversals (getVector d) (render_size g)" "(prepareTiles g, False)"]
  by (auto simp: move_def Let_def split: option.splits)

lemma moves_returns: "\<exists>g'. moves ms g = Some g'"
proof (induction ms arbitrary: g)
  case Nil
  then show ?case by simp
next
  case (Cons m ms)
  obtain g1 where "move (fst m) (snd m) g = Some g1" using move_returns by blast
  with Cons.IH[of g1] show ?case by simp
qed

subsection \<open>One step of the traversal\<close>

text \<open>
  A step leaves an empty cell alone, merges, or relocates the tile.
\<close>

lemma move_cell_cases:
  assumes "move_cell vector c s = Some s'"
  obtains
    (empty) "cellContent (grid (fst s)) c = None" "s' = s"
  | (merge) t farthest nxt n where
      "cellContent (grid (fst s)) c = Some t"
      "findFarthestPosition (grid (fst s)) c vector = Some (farthest, nxt)"
      "cellContent (grid (fst s)) nxt = Some n" "tile_value n = tile_value t" "mergedFrom n = None"
      "s' = (fst (merge_tiles (fst s) t n nxt), if \<not> positionsEqual c nxt then True else snd s)"
  | (slide) t farthest nxt where
      "cellContent (grid (fst s)) c = Some t"
      "findFarthestPosition (grid (fst s)) c vector = Some (farthest, nxt)"
      "merge_target (cellContent (grid (fst s)) nxt) t = None"
      "s' = (moveTile (fst s) t farthest, if \<not> positionsEqual c farthest then True else snd s)"
proof (cases "cellContent (grid (fst s)) c")
  case None
  with assms have "s' = s" by (simp add: move_cell_def)
  with None show ?thesis by (rule empty)
next
  case (Some t)
  with assms obtain farthest nxt where
    f: "findFarthestPosition (grid (fst s)) c vector = Some (farthest, nxt)"
    by (auto simp: move_cell_def split: option.splits)
  show ?thesis
  proof (cases "merge_target (cellContent (grid (fst s)) nxt) t")
    case None
    with assms Some f
    have "s' = (moveTile (fst s) t farthest, if \<not> positionsEqual c farthest then True else snd s)"
      by (simp add: move_cell_def Let_def updatePosition_def)
    with Some f None show ?thesis by (rule slide)
  next
    case (Some n)
    then have n: "cellContent (grid (fst s)) nxt = Some n" "tile_value n = tile_value t"
      "mergedFrom n = None"
      by (auto simp: merge_target_def split: option.splits if_splits)
    from assms \<open>cellContent (grid (fst s)) c = Some t\<close> f Some
    have "s' = (fst (merge_tiles (fst s) t n nxt), if \<not> positionsEqual c nxt then True else snd s)"
      by (simp add: move_cell_def Let_def merge_tiles_def updatePosition_def)
    with \<open>cellContent (grid (fst s)) c = Some t\<close> f n show ?thesis by (rule merge)
  qed
qed

lemma positionsEqual_iff: "positionsEqual a b \<longleftrightarrow> a = b"
  by (simp add: positionsEqual_def prod_eq_iff)

lemma cellContent_SomeD: "cellContent gr p = Some t \<Longrightarrow> withinBounds gr p \<and> cells gr p = Some t"
  by (simp add: cellContent_def split: if_splits)

lemma withinBounds_size: "grid_size gr' = grid_size gr \<Longrightarrow> withinBounds gr' p = withinBounds gr p"
  by (simp add: withinBounds_def)

lemma merge_tiles_simps:
  "cells (grid (fst (merge_tiles g t n p))) =
     ((cells (grid g))(p := Some \<lparr>tile_pos = p, tile_value = tile_value t * 2, previousPosition = None,
         mergedFrom = Some ((p, tile_value t), snapshot n)\<rparr>))(tile_pos t := None)"
  "score (fst (merge_tiles g t n p)) = score g + tile_value t * 2"
  "won (fst (merge_tiles g t n p)) = (tile_value t * 2 = 2048 \<or> won g)"
  "untouched (fst (merge_tiles g t n p)) = untouched g"
  "tile_pos (snd (merge_tiles g t n p)) = p"
  by (simp_all add: merge_tiles_def Let_def insertTile_def removeTile_def Tile_def updatePosition_def
      snapshot_def untouched_def)

lemma moveTile_simps:
  "cells (grid (moveTile g t cell)) =
     ((cells (grid g))(tile_pos t := None))(cell := Some (t\<lparr>tile_pos := cell\<rparr>))"
  "score (moveTile g t cell) = score g"
  "won (moveTile g t cell) = won g"
  "untouched (moveTile g t cell) = untouched g"
  by (simp_all add: moveTile_def updatePosition_def untouched_def)

lemma untouched_grid_size: "untouched g' = untouched g \<Longrightarrow> grid_size (grid g') = grid_size (grid g)"
  by (simp add: untouched_def)

lemma move_cell_untouched:
  "move_cell vector c s = Some s' \<Longrightarrow> untouched (fst s') = untouched (fst s)"
  by (erule move_cell_cases) (simp_all add: merge_tiles_simps moveTile_simps)

lemma move_cell_moved_mono: "move_cell vector c s = Some s' \<Longrightarrow> snd s \<Longrightarrow> snd s'"
  by (erule move_cell_cases) simp_all

lemma steps_from_Suc_neq: "vector \<noteq> (0, 0) \<Longrightarrow> steps_from c vector (Suc k) \<noteq> c"
proof
  assume v: "vector \<noteq> (0, 0)" and e: "steps_from c vector (Suc k) = c"
  from e have "(1 + int k) * fst vector = 0" "(1 + int k) * snd vector = 0"
    by (simp_all add: steps_from_def prod_eq_iff)
  then have "fst vector = 0" "snd vector = 0" by simp_all
  with v show False by (simp add: prod_eq_iff)
qed

lemma ffp_next_neq:
  "vector \<noteq> (0, 0) \<Longrightarrow> findFarthestPosition gr c vector = Some (farthest, nxt) \<Longrightarrow> nxt \<noteq> c"
  using ffp_result[of gr c vector "(farthest, nxt)"] steps_from_Suc_neq[of vector c] by auto

lemma ffp_farthest:
  "findFarthestPosition gr c vector = Some (farthest, nxt) \<Longrightarrow>
     farthest = c \<or> (withinBounds gr farthest \<and> cellContent gr farthest = None)"
  using ffp_result[of gr c vector "(farthest, nxt)"]
  by (auto simp: steps_from_def cellAvailable_def)

lemma cellContent_merge:
  "cellContent (grid (fst (merge_tiles g t n p))) q =
     (if withinBounds (grid g) q
      then (if q = tile_pos t then None
            else if q = p then Some \<lparr>tile_pos = p, tile_value = tile_value t * 2, previousPosition = None,
                 mergedFrom = Some ((p, tile_value t), snapshot n)\<rparr>
            else cells (grid g) q)
      else None)"
proof -
  have "withinBounds (grid (fst (merge_tiles g t n p))) q = withinBounds (grid g) q"
    by (rule withinBounds_size[OF untouched_grid_size]) (rule merge_tiles_simps)
  then show ?thesis
    by (simp add: cellContent_def merge_tiles_simps(1))
qed

lemma cellContent_moveTile:
  "cellContent (grid (moveTile g t cell)) q =
     (if withinBounds (grid g) q
      then (if q = cell then Some (t\<lparr>tile_pos := cell\<rparr>)
            else if q = tile_pos t then None else cells (grid g) q)
      else None)"
proof -
  have "withinBounds (grid (moveTile g t cell)) q = withinBounds (grid g) q"
    by (rule withinBounds_size[OF untouched_grid_size]) (rule moveTile_simps)
  then show ?thesis
    by (simp add: cellContent_def moveTile_simps(1))
qed

lemma cellContent_merge_cases:
  "cellContent (grid (fst (merge_tiles g t n p))) q = Some u \<Longrightarrow>
     (q = p \<and> u = \<lparr>tile_pos = p, tile_value = tile_value t * 2, previousPosition = None,
                 mergedFrom = Some ((p, tile_value t), snapshot n)\<rparr>)
     \<or> cellContent (grid g) q = Some u"
  unfolding cellContent_merge by (auto simp: cellContent_def split: if_splits)

lemma cellContent_moveTile_cases:
  "cellContent (grid (moveTile g t cell)) q = Some u \<Longrightarrow>
     (q = cell \<and> u = t\<lparr>tile_pos := cell\<rparr>) \<or> cellContent (grid g) q = Some u"
  unfolding cellContent_moveTile by (auto simp: cellContent_def split: if_splits)

lemma tiles_positiveD: "tiles_positive gr \<Longrightarrow> cellContent gr p = Some t \<Longrightarrow> 0 < tile_value t"
  unfolding tiles_positive_iff by blast

lemma tiles_positiveI: "(\<And>p t. cellContent gr p = Some t \<Longrightarrow> 0 < tile_value t) \<Longrightarrow> tiles_positive gr"
  unfolding tiles_positive_iff by blast

lemma grid_consistentD: "grid_consistent gr \<Longrightarrow> cellContent gr p = Some t \<Longrightarrow> tile_pos t = p"
  unfolding grid_consistent_iff by blast

lemma grid_consistentI: "(\<And>p t. cellContent gr p = Some t \<Longrightarrow> tile_pos t = p) \<Longrightarrow> grid_consistent gr"
  unfolding grid_consistent_iff by blast

lemma move_cell_positive:
  assumes "tiles_positive (grid (fst s))" and "move_cell vector c s = Some s'"
  shows "tiles_positive (grid (fst s')) \<and> score (fst s) \<le> score (fst s')"
  using assms(2)
proof (cases rule: move_cell_cases)
  case empty
  with assms show ?thesis by simp
next
  case (merge t farthest nxt n)
  have t: "0 < tile_value t" using assms(1) merge(1) by (rule tiles_positiveD)
  have "tiles_positive (grid (fst s'))"
  proof (rule tiles_positiveI)
    fix p u
    assume "cellContent (grid (fst s')) p = Some u"
    with merge(6) have "cellContent (grid (fst (merge_tiles (fst s) t n nxt))) p = Some u" by simp
    from cellContent_merge_cases[OF this] t tiles_positiveD[OF assms(1), of p u]
    show "0 < tile_value u" by auto
  qed
  moreover from t merge(6) have "score (fst s) \<le> score (fst s')"
    by (simp add: merge_tiles_simps)
  ultimately show ?thesis by simp
next
  case (slide t farthest nxt)
  have t: "0 < tile_value t" using assms(1) slide(1) by (rule tiles_positiveD)
  have "tiles_positive (grid (fst s'))"
  proof (rule tiles_positiveI)
    fix p u
    assume "cellContent (grid (fst s')) p = Some u"
    with slide(4) have "cellContent (grid (moveTile (fst s) t farthest)) p = Some u" by simp
    from cellContent_moveTile_cases[OF this] t tiles_positiveD[OF assms(1), of p u]
    show "0 < tile_value u" by auto
  qed
  with slide(4) show ?thesis by (simp add: moveTile_simps)
qed

lemma move_cell_consistent:
  assumes "grid_consistent (grid (fst s))" and "move_cell vector c s = Some s'"
  shows "grid_consistent (grid (fst s'))"
  using assms(2)
proof (cases rule: move_cell_cases)
  case empty
  with assms show ?thesis by simp
next
  case (merge t farthest nxt n)
  show ?thesis
  proof (rule grid_consistentI)
    fix p u
    assume "cellContent (grid (fst s')) p = Some u"
    with merge(6) have "cellContent (grid (fst (merge_tiles (fst s) t n nxt))) p = Some u" by simp
    from cellContent_merge_cases[OF this] grid_consistentD[OF assms(1), of p u]
    show "tile_pos u = p" by auto
  qed
next
  case (slide t farthest nxt)
  show ?thesis
  proof (rule grid_consistentI)
    fix p u
    assume "cellContent (grid (fst s')) p = Some u"
    with slide(4) have "cellContent (grid (moveTile (fst s) t farthest)) p = Some u" by simp
    from cellContent_moveTile_cases[OF this] grid_consistentD[OF assms(1), of p u]
    show "tile_pos u = p" by auto
  qed
qed

lemma move_cell_merge_moved:
  assumes "vector \<noteq> (0, 0)" and "move_cell vector c s = Some s'"
    and "cellContent (grid (fst s)) c = Some t"
    and "findFarthestPosition (grid (fst s)) c vector = Some (farthest, nxt)"
    and "merge_target (cellContent (grid (fst s)) nxt) t = Some n"
  shows "snd s'"
  using assms(2)
proof (cases rule: move_cell_cases)
  case empty
  with assms show ?thesis by simp
next
  case (merge t' farthest' nxt' n')
  with assms(4) have "nxt' = nxt" by simp
  with ffp_next_neq[OF assms(1,4)] merge(6) show ?thesis
    by (simp add: positionsEqual_iff)
next
  case (slide t' farthest' nxt')
  with assms show ?thesis by simp
qed

lemma move_cell_unmoved:
  assumes "vector \<noteq> (0, 0)" and "grid_consistent (grid (fst s))"
    and "move_cell vector c s = Some s'" and "\<not> snd s'"
  shows "fst s' = fst s"
  using assms(3)
proof (cases rule: move_cell_cases)
  case empty
  then show ?thesis by simp
next
  case (merge t farthest nxt n)
  with ffp_next_neq[OF assms(1) merge(2)] assms(4) show ?thesis
    by (simp add: positionsEqual_iff)
next
  case (slide t farthest nxt)
  from assms(4) slide(4) have f: "farthest = c"
    by (simp add: positionsEqual_iff split: if_splits)
  from slide(1) have c: "cells (grid (fst s)) c = Some t" by (simp add: cellContent_SomeD)
  from assms(2) slide(1) have p: "tile_pos t = c" by (rule grid_consistentD)
  have tt: "updatePosition t c = t" using p[symmetric] by (simp add: updatePosition_def)
  have "((cells (grid (fst s)))(tile_pos t := None))(c := Some t) = cells (grid (fst s))"
    using c p by (simp add: fun_eq_iff)
  then have "moveTile (fst s) t c = fst s"
    unfolding moveTile_def tt by simp
  with slide(4) f show ?thesis by simp
qed

subsection \<open>prepareTiles and addRandomTile\<close>

lemma fold_cells:
  assumes idem: "\<And>t. f (f t) = f t"
    and step: "\<And>p g q. cells (step p g) q = (if q = p then map_option f (cells g p) else cells g q)"
    and size: "\<And>p g. grid_size (step p g) = grid_size g"
  shows "cells (fold step ps gr) q = (if q \<in> set ps then map_option f (cells gr q) else cells gr q)
         \<and> grid_size (fold step ps gr) = grid_size gr"
proof (induction ps arbitrary: gr)
  case Nil
  then show ?case by simp
next
  case (Cons p ps)
  have "map_option f (map_option f (cells gr p)) = map_option f (cells gr p)"
    using idem by (simp add: option.map_comp comp_def)
  with Cons.IH[of "step p gr"] show ?case
    by (simp add: step size)
qed

lemma eachCell_fold:
  assumes "\<And>t. f (f t) = f t"
  shows "cells (eachCell f gr) q =
           (if q \<in> set (all_cells (grid_size gr)) then map_option f (cells gr q) else cells gr q)
         \<and> grid_size (eachCell f gr) = grid_size gr"
  unfolding eachCell_def
  by (rule fold_cells[OF assms]) (simp_all split: option.splits)

lemma eachCell_cells:
  assumes "\<And>t. f (f t) = f t"
  shows "cells (eachCell f gr) q = (if withinBounds gr q then map_option f (cells gr q) else cells gr q)"
  using eachCell_fold[OF assms, of gr q]
  by (simp add: in_all_cells)

lemma eachCell_size:
  assumes "\<And>t. f (f t) = f t"
  shows "grid_size (eachCell f gr) = grid_size gr"
  using eachCell_fold[OF assms, of gr]
  by simp

lemma prepared_idem: "prepared (prepared t) = prepared t"
  by (simp add: prepared_def savePosition_def)

lemma prepared_simps:
  "tile_pos (prepared t) = tile_pos t" "tile_value (prepared t) = tile_value t"
  "mergedFrom (prepared t) = None" "snapshot (prepared t) = snapshot t"
  by (simp_all add: prepared_def savePosition_def snapshot_def)

lemma prepareTiles_alt: "prepareTiles g = g\<lparr>grid := eachCell prepared (grid g)\<rparr>"
  by (simp add: prepareTiles_def prepared_def[abs_def])

lemma prepareTiles_untouched: "untouched (prepareTiles g) = untouched g"
  by (simp add: prepareTiles_alt untouched_def eachCell_size[OF prepared_idem])

lemma prepareTiles_fields: "score (prepareTiles g) = score g" "won (prepareTiles g) = won g"
  by (simp_all add: prepareTiles_def)

lemma cellContent_prepareTiles:
  "cellContent (grid (prepareTiles g)) p = map_option prepared (cellContent (grid g) p)"
  by (simp add: prepareTiles_alt cellContent_def withinBounds_def eachCell_size[OF prepared_idem]
      eachCell_cells[OF prepared_idem])

lemma prepareTiles_positive: "tiles_positive (grid g) \<Longrightarrow> tiles_positive (grid (prepareTiles g))"
  by (rule tiles_positiveI) (auto simp: cellContent_prepareTiles prepared_simps dest: tiles_positiveD)

lemma prepareTiles_consistent: "grid_consistent (grid g) \<Longrightarrow> grid_consistent (grid (prepareTiles g))"
  by (rule grid_consistentI) (auto simp: cellContent_prepareTiles prepared_simps dest: grid_consistentD)

lemma prepareTiles_board: "board (grid (prepareTiles g)) p = board (grid g) p"
  by (simp add: board_def cellContent_prepareTiles option.map_comp comp_def prepared_simps)

lemma addRandomTile_fields:
  "score (addRandomTile r g) = score g" "won (addRandomTile r g) = won g"
  "untouched (addRandomTile r g) = untouched g"
  by (simp_all add: addRandomTile_def insertTile_def Let_def untouched_def)

lemma cellContent_addRandomTile_cases:
  "cellContent (grid (addRandomTile r g)) p = Some t \<Longrightarrow>
     tile_value t = 2 \<or> tile_value t = 4 \<or> cellContent (grid g) p = Some t"
  by (auto simp: addRandomTile_def insertTile_def Let_def Tile_def cellContent_def withinBounds_def
      split: if_splits)

lemma addRandomTile_positive: "tiles_positive (grid g) \<Longrightarrow> tiles_positive (grid (addRandomTile r g))"
proof (rule tiles_positiveI)
  fix p t
  assume "tiles_positive (grid g)" "cellContent (grid (addRandomTile r g)) p = Some t"
  then show "0 < tile_value t"
    using cellContent_addRandomTile_cases[of r g p t] tiles_positiveD[of "grid g" p t] by auto
qed

subsection \<open>The traversal and the score\<close>

lemma traverse_untouched:
  "traverse vector tr s = Some s' \<Longrightarrow> untouched (fst s') = untouched (fst s)"
  unfolding traverse_flat
  by (erule forEach_invariant[where I = "\<lambda>a. untouched (fst a) = untouched (fst s)"])
     (simp_all add: move_cell_untouched)

lemma traverse_positive:
  assumes "traverse vector tr s = Some s'" and "tiles_positive (grid (fst s))"
  shows "tiles_positive (grid (fst s')) \<and> score (fst s) \<le> score (fst s')"
  using assms(1) unfolding traverse_flat
proof (rule forEach_invariant[where I = "\<lambda>a. tiles_positive (grid (fst a)) \<and> score (fst s) \<le> score (fst a)"])
  show "tiles_positive (grid (fst s)) \<and> score (fst s) \<le> score (fst s)" using assms(2) by simp
next
  fix x a b
  assume "tiles_positive (grid (fst a)) \<and> score (fst s) \<le> score (fst a)" "move_cell vector x a = Some b"
  then show "tiles_positive (grid (fst b)) \<and> score (fst s) \<le> score (fst b)"
    using move_cell_positive[of a vector x b] by auto
qed

lemma move_positive:
  assumes "tiles_positive (grid g)" and "move d r g = Some g'"
  shows "tiles_positive (grid g') \<and> score g \<le> score g'"
proof (cases "isGameTerminated g")
  case True
  with assms show ?thesis by (simp add: move_def)
next
  case False
  with assms(2) obtain s where
    s: "traverse (getVector d) (buildTraversals (getVector d) (render_size g)) (prepareTiles g, False) = Some s"
    by (auto simp: move_def Let_def split: option.splits)
  from traverse_positive[OF s] prepareTiles_positive[OF assms(1)]
  have p: "tiles_positive (grid (fst s))" "score g \<le> score (fst s)"
    by (simp_all add: prepareTiles_fields)
  show ?thesis
  proof (cases "snd s")
    case True
    with False assms(2) s
    have "g' = draw (if \<not> movesAvailable (addRandomTile r (fst s)) then (addRandomTile r (fst s))\<lparr>over := True\<rparr>
                    else addRandomTile r (fst s))"
      by (simp add: move_def Let_def)
    with p addRandomTile_positive[OF p(1), of r] show ?thesis
      by (simp add: draw_fields addRandomTile_fields)
  next
    case f: False
    with False assms(2) s have "g' = fst s" by (simp add: move_def Let_def)
    with p show ?thesis by simp
  qed
qed

lemma moves_positive:
  "tiles_positive (grid g) \<Longrightarrow> moves ms g = Some g' \<Longrightarrow> tiles_positive (grid g') \<and> score g \<le> score g'"
proof (induction ms arbitrary: g)
  case Nil
  then show ?case by simp
next
  case (Cons m ms)
  from Cons.prems(2) obtain g1 where g1: "move (fst m) (snd m) g = Some g1" "moves ms g1 = Some g'"
    by (auto split: option.splits)
  from move_positive[OF Cons.prems(1) g1(1)] Cons.IH[OF _ g1(2)] show ?case by auto
qed

subsection \<open>Moves that change nothing, and empty cells\<close>

lemma move_cell_unmoved_score:
  assumes "vector \<noteq> (0, 0)" and "move_cell vector c s = Some s'" and "\<not> snd s'"
  shows "score (fst s') = score (fst s) \<and> won (fst s') = won (fst s) \<and> \<not> snd s"
  using assms(2)
proof (cases rule: move_cell_cases)
  case empty
  with assms(3) show ?thesis by simp
next
  case (merge t farthest nxt n)
  with ffp_next_neq[OF assms(1) merge(2)] assms(3) show ?thesis
    by (simp add: positionsEqual_iff)
next
  case (slide t farthest nxt)
  with assms(3) show ?thesis by (simp add: moveTile_simps split: if_splits)
qed

lemma forEach_unmoved:
  assumes "vector \<noteq> (0, 0)" and "forEach (move_cell vector) cs s = Some s'" and "\<not> snd s'"
  shows "score (fst s') = score (fst s) \<and> won (fst s') = won (fst s) \<and> \<not> snd s
         \<and> (grid_consistent (grid (fst s)) \<longrightarrow> fst s' = fst s)"
  using assms(2,3)
proof (induction cs arbitrary: s)
  case Nil
  then show ?case by simp
next
  case (Cons c cs)
  from Cons.prems(1) obtain s1 where s1: "move_cell vector c s = Some s1"
    "forEach (move_cell vector) cs s1 = Some s'"
    by (auto split: option.splits)
  from Cons.IH[OF s1(2) Cons.prems(2)]
  have ih: "score (fst s') = score (fst s1)" "won (fst s') = won (fst s1)" "\<not> snd s1"
    "grid_consistent (grid (fst s1)) \<longrightarrow> fst s' = fst s1"
    by simp_all
  from move_cell_unmoved_score[OF assms(1) s1(1) ih(3)]
  have a: "score (fst s1) = score (fst s)" "won (fst s1) = won (fst s)" "\<not> snd s" by simp_all
  have "fst s' = fst s" if "grid_consistent (grid (fst s))"
  proof -
    from move_cell_unmoved[OF assms(1) that s1(1) ih(3)] have "fst s1 = fst s" .
    with ih(4) that show ?thesis by simp
  qed
  with ih a show ?case by simp
qed

lemma forEach_moved_mono:
  "forEach (move_cell vector) cs s = Some s' \<Longrightarrow> snd s \<Longrightarrow> snd s'"
  by (erule forEach_invariant[where I = snd]) (simp_all add: move_cell_moved_mono)

lemma forEach_consistent:
  "forEach (move_cell vector) cs s = Some s' \<Longrightarrow> grid_consistent (grid (fst s)) \<Longrightarrow>
     grid_consistent (grid (fst s'))"
  by (erule forEach_invariant[where I = "\<lambda>a. grid_consistent (grid (fst a))"])
     (simp_all add: move_cell_consistent)

lemma cellsAvailableI: "withinBounds gr p \<Longrightarrow> cellContent gr p = None \<Longrightarrow> cellsAvailable gr"
  unfolding cellsAvailable_iff cellContent_def by (auto simp del: split_paired_Ex)

lemma move_cell_merge_cellsAvailable:
  assumes "grid_consistent (grid (fst s))" and "move_cell vector c s = Some s'"
    and "cellContent (grid (fst s)) c = Some t"
    and "findFarthestPosition (grid (fst s)) c vector = Some (farthest, nxt)"
    and "merge_target (cellContent (grid (fst s)) nxt) t = Some n"
  shows "cellsAvailable (grid (fst s'))"
proof -
  have p: "tile_pos t = c" using assms(1,3) by (rule grid_consistentD)
  from assms(3) have w: "withinBounds (grid (fst s)) c" by (simp add: cellContent_SomeD)
  from assms(2,3,4,5) have "fst s' = fst (merge_tiles (fst s) t n nxt)"
    by (auto simp add: move_cell_def Let_def)
  then have "cellContent (grid (fst s')) c = None"
    using p by (simp add: cellContent_merge)
  moreover have "withinBounds (grid (fst s')) c"
    using w withinBounds_size[OF untouched_grid_size[OF move_cell_untouched[OF assms(2)]], of c]
    by simp
  ultimately show ?thesis by (rule cellsAvailableI[rotated])
qed

lemma move_cell_cellsAvailable:
  assumes "grid_consistent (grid (fst s))" and "move_cell vector c s = Some s'"
    and "cellsAvailable (grid (fst s))"
  shows "cellsAvailable (grid (fst s'))"
  using assms(2)
proof (cases rule: move_cell_cases)
  case empty
  with assms(3) show ?thesis by simp
next
  case (merge t farthest nxt n)
  then have "merge_target (cellContent (grid (fst s)) nxt) t = Some n"
    by (simp add: merge_target_def)
  from move_cell_merge_cellsAvailable[OF assms(1,2) merge(1,2) this] show ?thesis .
next
  case (slide t farthest nxt)
  have p: "tile_pos t = c" using assms(1) slide(1) by (rule grid_consistentD)
  from slide(1) have w: "withinBounds (grid (fst s)) c" by (simp add: cellContent_SomeD)
  have wb: "withinBounds (grid (fst s')) q = withinBounds (grid (fst s)) q" for q
    using withinBounds_size[OF untouched_grid_size[OF move_cell_untouched[OF assms(2)]], of q]
    by simp
  from assms(3) obtain e where e: "withinBounds (grid (fst s)) e" "cells (grid (fst s)) e = None"
    unfolding cellsAvailable_iff by blast
  show ?thesis
  proof (cases "farthest = c")
    case True
    with e slide(1,4) p have "cellContent (grid (fst s')) e = None"
      by (auto simp: cellContent_moveTile dest: cellContent_SomeD)
    with e(1) wb[of e] show ?thesis by (simp add: cellsAvailableI)
  next
    case False
    with slide(4) p have "cellContent (grid (fst s')) c = None"
      by (simp add: cellContent_moveTile)
    with w wb[of c] show ?thesis by (simp add: cellsAvailableI)
  qed
qed

lemma forEach_cellsAvailable:
  assumes "forEach (move_cell vector) cs s = Some s'"
    and "grid_consistent (grid (fst s))" and "cellsAvailable (grid (fst s))"
  shows "cellsAvailable (grid (fst s'))"
proof -
  have "grid_consistent (grid (fst s')) \<and> cellsAvailable (grid (fst s'))"
    using assms(1)
  proof (rule forEach_invariant[where I = "\<lambda>a. grid_consistent (grid (fst a)) \<and> cellsAvailable (grid (fst a))"])
    show "grid_consistent (grid (fst s)) \<and> cellsAvailable (grid (fst s))" using assms(2,3) by simp
  next
    fix x a b
    assume "grid_consistent (grid (fst a)) \<and> cellsAvailable (grid (fst a))" "move_cell vector x a = Some b"
    then show "grid_consistent (grid (fst b)) \<and> cellsAvailable (grid (fst b))"
      using move_cell_consistent[of a vector x b] move_cell_cellsAvailable[of a vector x b] by simp
  qed
  then show ?thesis by simp
qed

lemma move_not_terminated:
  assumes "\<not> isGameTerminated g"
    and "traverse (getVector d) (buildTraversals (getVector d) (render_size g)) (prepareTiles g, False) = Some s"
  shows "move d r g =
     (if snd s
      then Some (draw (if \<not> movesAvailable (addRandomTile r (fst s))
                       then (addRandomTile r (fst s))\<lparr>over := True\<rparr> else addRandomTile r (fst s)))
      else Some (fst s))"
  using assms by (simp add: move_def Let_def)

lemma merges_atD:
  assumes "merges_at vector c g"
  obtains t farthest nxt n where "cellContent (grid g) c = Some t"
    "findFarthestPosition (grid g) c vector = Some (farthest, nxt)"
    "merge_target (cellContent (grid g) nxt) t = Some n"
  using assms by (auto simp: merges_at_def split: option.splits)

lemma merge_occursD:
  assumes "merge_occurs d g pre c"
  obtains s where "forEach (move_cell (getVector d)) pre (prepareTiles g, False) = Some s"
    "merges_at (getVector d) c (fst s)"
  using assms by (auto simp: merge_occurs_def split: option.splits)

lemma ffp_next_steps:
  "findFarthestPosition gr c vector = Some (farthest, nxt) \<Longrightarrow> \<exists>k. nxt = steps_from c vector (Suc k)"
  using ffp_result[of gr c vector "(farthest, nxt)"] by auto

subsection \<open>The order of the traversal\<close>

text \<open>
  A cell that lies ahead of another in the direction of the move is visited before it.
\<close>

lemma sorted_ints: "sorted_wrt (<) (map int [0..<n])"
  by (simp add: sorted_wrt_map)

lemma sorted_ints_rev: "sorted_wrt (\<lambda>a b. b < a) (rev (map int [0..<n]))"
  by (simp add: sorted_wrt_rev sorted_wrt_map)

lemma sorted_pairs:
  assumes "sorted_wrt A xs" and "sorted_wrt B ys"
  shows "sorted_wrt (\<lambda>p q. A (fst p) (fst q) \<or> (fst p = fst q \<and> B (snd p) (snd q)))
           (concat (map (\<lambda>x. map (\<lambda>y. (x, y)) ys) xs))"
  using assms(1)
proof (induction xs)
  case Nil
  then show ?case by simp
next
  case (Cons x xs)
  have "sorted_wrt (\<lambda>a b. A x x \<or> B a b) ys"
    using assms(2) by (rule sorted_wrt_mono_rel[rotated]) simp
  with Cons show ?case
    by (auto simp: sorted_wrt_append sorted_wrt_map)
qed

lemma traversal_sorted:
  "sorted_wrt (visited_before vector) (traversal_cells (buildTraversals vector n))"
proof -
  have x: "sorted_wrt (\<lambda>a b. if fst vector = 1 then b < a else a < b)
             (fst (buildTraversals vector n))"
    using sorted_ints[of n] sorted_ints_rev[of n] by (simp add: buildTraversals_def Let_def)
  have y: "sorted_wrt (\<lambda>a b. if snd vector = 1 then b < a else a < b)
             (snd (buildTraversals vector n))"
    using sorted_ints[of n] sorted_ints_rev[of n] by (simp add: buildTraversals_def Let_def)
  from sorted_pairs[OF x y] show ?thesis
    by (simp add: traversal_cells_def visited_before_def[abs_def])
qed

lemma ahead_not_later: "ahead (getVector d) c q \<Longrightarrow> \<not> visited_before (getVector d) c q"
  by (cases d) (auto simp: ahead_def visited_before_def steps_from_def)

lemma traversal_not_ahead:
  assumes "traversal_cells (buildTraversals (getVector d) n) = pre @ c # post"
  shows "\<forall>q\<in>set post. \<not> ahead (getVector d) c q"
proof -
  from traversal_sorted[of "getVector d" n] assms
  have "\<forall>q\<in>set post. visited_before (getVector d) c q"
    by (simp add: sorted_wrt_append)
  with ahead_not_later show ?thesis by blast
qed

lemma traversal_suffix_sorted:
  assumes "traversal_cells (buildTraversals (getVector d) n) = pre @ rest"
  shows "sorted_wrt (\<lambda>c q. \<not> ahead (getVector d) c q) (pre @ rest)"
proof -
  have "sorted_wrt (visited_before (getVector d)) (pre @ rest)"
    using traversal_sorted[of "getVector d" n] assms by simp
  then show ?thesis
    by (rule sorted_wrt_mono_rel[rotated]) (auto dest: ahead_not_later)
qed

subsection \<open>Merge provenance\<close>

lemma prepareTiles_untagged: "\<not> tagged (grid (prepareTiles g)) p"
  by (cases "cellContent (grid g) p") (simp_all add: tagged_def cellContent_prepareTiles prepared_simps)

lemma tagged_iff: "tagged gr p \<longleftrightarrow> (\<exists>u. cellContent gr p = Some u \<and> mergedFrom u \<noteq> None)"
  by (cases "cellContent gr p") (simp_all add: tagged_def)

lemma not_taggedD: "\<not> tagged gr p \<Longrightarrow> cellContent gr p = Some t \<Longrightarrow> mergedFrom t = None"
  unfolding tagged_iff by blast

lemma move_cell_untagged:
  assumes "move_cell vector a s = Some sa"
    and "\<not> tagged (grid (fst s)) a" and "\<not> tagged (grid (fst s)) p" and "\<not> ahead vector a p"
  shows "\<not> tagged (grid (fst sa)) p"
  using assms(1)
proof (cases rule: move_cell_cases)
  case empty
  with assms(3) show ?thesis by simp
next
  case (merge t farthest nxt n)
  from ffp_next_steps[OF merge(2)] assms(4) have ne: "p \<noteq> nxt" by (auto simp: ahead_def)
  show ?thesis
  proof
    assume "tagged (grid (fst sa)) p"
    then obtain u where u: "cellContent (grid (fst (merge_tiles (fst s) t n nxt))) p = Some u"
      "mergedFrom u \<noteq> None"
      using merge(6) unfolding tagged_iff by auto
    from cellContent_merge_cases[OF u(1)] ne have "cellContent (grid (fst s)) p = Some u" by blast
    with u(2) assms(3) show False unfolding tagged_iff by blast
  qed
next
  case (slide t farthest nxt)
  from assms(2) slide(1) have t: "mergedFrom t = None" by (rule not_taggedD)
  show ?thesis
  proof
    assume "tagged (grid (fst sa)) p"
    then obtain u where u: "cellContent (grid (moveTile (fst s) t farthest)) p = Some u"
      "mergedFrom u \<noteq> None"
      using slide(4) unfolding tagged_iff by auto
    from cellContent_moveTile_cases[OF u(1)] u(2) t
    have "cellContent (grid (fst s)) p = Some u" by auto
    with u(2) assms(3) show False unfolding tagged_iff by blast
  qed
qed

lemma forEach_untagged:
  assumes "sorted_wrt (\<lambda>c q. \<not> ahead vector c q) (pre @ rest)"
    and "forEach (move_cell vector) pre s = Some s1"
    and "\<forall>p\<in>set (pre @ rest). \<not> tagged (grid (fst s)) p"
  shows "\<forall>p\<in>set rest. \<not> tagged (grid (fst s1)) p"
  using assms
proof (induction pre arbitrary: s)
  case Nil
  then show ?case by simp
next
  case (Cons a pre)
  from Cons.prems(2) obtain sa where sa: "move_cell vector a s = Some sa"
    "forEach (move_cell vector) pre sa = Some s1"
    by (auto split: option.splits)
  from Cons.prems(1) have o: "\<forall>q\<in>set (pre @ rest). \<not> ahead vector a q"
    and srt: "sorted_wrt (\<lambda>c q. \<not> ahead vector c q) (pre @ rest)"
    by simp_all
  have "\<forall>p\<in>set (pre @ rest). \<not> tagged (grid (fst sa)) p"
  proof
    fix p assume p: "p \<in> set (pre @ rest)"
    show "\<not> tagged (grid (fst sa)) p"
    proof (rule move_cell_untagged[OF sa(1)])
      show "\<not> tagged (grid (fst s)) a" using Cons.prems(3) by simp
      show "\<not> tagged (grid (fst s)) p" using Cons.prems(3) p by simp
      show "\<not> ahead vector a p" using o p by blast
    qed
  qed
  from Cons.IH[OF srt sa(2) this] show ?case .
qed

lemma move_cell_keeps_tagged:
  assumes "move_cell vector a s = Some sa" and "grid_consistent (grid (fst s))"
    and "cellContent (grid (fst s)) p = Some u" and "mergedFrom u \<noteq> None" and "a \<noteq> p"
  shows "cellContent (grid (fst sa)) p = Some u"
  using assms(1)
proof (cases rule: move_cell_cases)
  case empty
  with assms(3) show ?thesis by simp
next
  case (merge t farthest nxt n)
  have "tile_pos t = a" using assms(2) merge(1) by (rule grid_consistentD)
  moreover have "nxt \<noteq> p" using merge(3,5) assms(3,4) by auto
  ultimately show ?thesis
    using merge(6) assms(3,5) cellContent_SomeD[OF assms(3)] by (simp add: cellContent_merge)
next
  case (slide t farthest nxt)
  have "tile_pos t = a" using assms(2) slide(1) by (rule grid_consistentD)
  moreover have "farthest \<noteq> p" using ffp_farthest[OF slide(2)] assms(3,5) by auto
  ultimately show ?thesis
    using slide(4) assms(3,5) cellContent_SomeD[OF assms(3)] by (simp add: cellContent_moveTile)
qed

lemma forEach_keeps_tagged:
  assumes "forEach (move_cell vector) cs s = Some s'" and "grid_consistent (grid (fst s))"
    and "cellContent (grid (fst s)) p = Some u" and "mergedFrom u \<noteq> None" and "p \<notin> set cs"
  shows "cellContent (grid (fst s')) p = Some u"
  using assms(1,2,3,5)
proof (induction cs arbitrary: s)
  case Nil
  then show ?case by simp
next
  case (Cons a cs)
  from Cons.prems(1) obtain sa where sa: "move_cell vector a s = Some sa"
    "forEach (move_cell vector) cs sa = Some s'"
    by (auto split: option.splits)
  from Cons.prems(4) have ne: "a \<noteq> p" "p \<notin> set cs" by auto
  from move_cell_keeps_tagged[OF sa(1) Cons.prems(2,3) assms(4) ne(1)]
    move_cell_consistent[OF Cons.prems(2) sa(1)]
  show ?case using Cons.IH[OF sa(2) _ _ ne(2)] by simp
qed

lemma ahead_not_visited_later:
  assumes "traversal_cells (buildTraversals (getVector d) n) = pre @ c # post"
    and "ahead (getVector d) c q"
  shows "q \<notin> set post"
  using traversal_not_ahead[OF assms(1)] assms(2) by blast

subsection \<open>Serialization, setup and draw\<close>

lemma state_entry_serialize:
  assumes "withinBounds gr p"
  shows "state_entry (s_cells (serialize_grid gr)) p = map_option snapshot (cells gr p)"
proof -
  from assms have b: "0 \<le> fst p" "fst p < int (grid_size gr)" "0 \<le> snd p" "snd p < int (grid_size gr)"
    by (simp_all add: withinBounds_def)
  then have n: "nat (fst p) < grid_size gr" "nat (snd p) < grid_size gr" by linarith+
  from b have "(int (nat (fst p)), int (nat (snd p))) = p" by (simp add: prod_eq_iff)
  with b n show ?thesis
    by (simp add: state_entry_def serialize_grid_def)
qed

lemma cellContent_Grid_fromState:
  "cellContent (Grid_fromState n st) p =
     (if 0 \<le> fst p \<and> fst p < int n \<and> 0 \<le> snd p \<and> snd p < int n
      then map_option (\<lambda>e. Tile (fst e) (snd e)) (state_entry st p) else None)"
  by (simp add: cellContent_def withinBounds_def Grid_fromState_def)

lemma snapshot_Tile: "snapshot (Tile (fst e) (snd e)) = e"
  by (simp add: snapshot_def Tile_def)

lemma board_Grid_fromState:
  "board (Grid_fromState (grid_size gr) (s_cells (serialize_grid gr))) p = board gr p"
proof (cases "withinBounds gr p")
  case True
  then have "0 \<le> fst p \<and> fst p < int (grid_size gr) \<and> 0 \<le> snd p \<and> snd p < int (grid_size gr)"
    by (simp add: withinBounds_def)
  then have "cellContent (Grid_fromState (grid_size gr) (s_cells (serialize_grid gr))) p
      = map_option (\<lambda>e. Tile (fst e) (snd e)) (map_option snapshot (cells gr p))"
    by (simp add: cellContent_Grid_fromState state_entry_serialize[OF True])
  moreover have "cellContent gr p = cells gr p" using True by (simp add: cellContent_def)
  ultimately show ?thesis
    by (simp add: board_def option.map_comp comp_def snapshot_Tile option.map_ident)
next
  case False
  then have "cellContent (Grid_fromState (grid_size gr) (s_cells (serialize_grid gr))) p = None"
    by (auto simp: cellContent_Grid_fromState withinBounds_def)
  moreover have "cellContent gr p = None" using False by (simp add: cellContent_def)
  ultimately show ?thesis by (simp add: board_def)
qed

lemma setup_game_restores:
  assumes "gameState (storage g) = Some st"
  shows "setup_game rs g =
     draw (g\<lparr>calls := calls g @ [GetGameState],
             grid := Grid_fromState (s_size (s_grid st)) (s_cells (s_grid st)),
             score := s_score st, over := s_over st, won := s_won st,
             keepPlaying := s_keepPlaying st\<rparr>)"
  using assms by (simp add: setup_game_def getGameState_def)



lemma addStartTiles_loop_grid:
  "grid g = grid h \<Longrightarrow> grid (addStartTiles_loop rs i n g) = grid (addStartTiles_loop rs i n h)"
proof (induction n arbitrary: i g h)
  case 0
  then show ?case by simp
next
  case (Suc n)
  have "grid (addRandomTile (rs i) g) = grid (addRandomTile (rs i) h)"
    using Suc.prems by (simp add: addRandomTile_def Let_def)
  from Suc.IH[OF this] show ?case by simp
qed

lemma addStartTiles_loop_fields:
  "score (addStartTiles_loop rs i n g) = score g \<and> won (addStartTiles_loop rs i n g) = won g
   \<and> untouched (addStartTiles_loop rs i n g) = untouched g"
  by (induction n arbitrary: i g) (simp_all add: addRandomTile_fields)

lemma setup_game_fresh:
  assumes "gameState (storage g) = None"
  shows "setup_game rs g =
     draw (addStartTiles rs (g\<lparr>calls := calls g @ [GetGameState], grid := Grid (render_size g),
             score := 0, over := False, won := False, keepPlaying := Data False\<rparr>))"
  using assms by (simp add: setup_game_def getGameState_def)

lemma setup_game_fresh_fields:
  assumes "gameState (storage g) = None"
  shows "score (setup_game rs g) = 0" "\<not> over (setup_game rs g)" "\<not> won (setup_game rs g)"
    "keepPlaying (setup_game rs g) = Data False"
    "grid (setup_game rs g) = grid (addStartTiles rs (g\<lparr>grid := Grid (render_size g)\<rparr>))"
proof -
  let ?g0 = "g\<lparr>calls := calls g @ [GetGameState], grid := Grid (render_size g),
             score := 0, over := False, won := False, keepPlaying := Data False\<rparr>"
  note f = addStartTiles_loop_fields[of rs 0 "startTiles ?g0" ?g0]
  from f show "score (setup_game rs g) = 0" "\<not> won (setup_game rs g)"
    unfolding setup_game_fresh[OF assms] by (simp_all add: draw_fields addStartTiles_def)
  from f show "\<not> over (setup_game rs g)" "keepPlaying (setup_game rs g) = Data False"
    unfolding setup_game_fresh[OF assms] by (simp_all add: draw_fields addStartTiles_def untouched_def)
  have "grid (addStartTiles_loop rs 0 (startTiles g) ?g0)
      = grid (addStartTiles_loop rs 0 (startTiles g) (g\<lparr>grid := Grid (render_size g)\<rparr>))"
    by (rule addStartTiles_loop_grid) simp
  then show "grid (setup_game rs g) = grid (addStartTiles rs (g\<lparr>grid := Grid (render_size g)\<rparr>))"
    unfolding setup_game_fresh[OF assms] by (simp add: draw_fields addStartTiles_def)
qed

lemma setup_game_keepPlaying:
  "keepPlaying (setup_game rs g) =
     (case gameState (storage g) of None \<Rightarrow> Data False | Some st \<Rightarrow> s_keepPlaying st)"
proof (cases "gameState (storage g)")
  case None
  then show ?thesis by (simp add: setup_game_fresh_fields)
next
  case (Some st)
  then show ?thesis by (simp add: setup_game_restores draw_fields)
qed

lemma call_keepPlaying_Data: "keepPlaying g = Data b \<Longrightarrow> call_keepPlaying g = Inl TypeError"
  by (simp add: call_keepPlaying_def)

subsection \<open>The keepPlaying method and the over flag\<close>

lemma keepPlaying_method_latches:
  "won g \<Longrightarrow> over g = False \<Longrightarrow>
     isGameTerminated (keepPlaying_method g) = False \<and> won (keepPlaying_method g)"
  by (simp add: keepPlaying_method_def continueGame_def isGameTerminated_def)

lemma move_over_iff:
  assumes "\<not> isGameTerminated g"
    and "traverse (getVector d) (buildTraversals (getVector d) (render_size g)) (prepareTiles g, False)
          = Some (g1, True)"
  shows "\<exists>g'. move d r g = Some g' \<and> over g' = (\<not> cellsAvailable (grid (addRandomTile r g1)))"
proof -
  from assms(1) have "\<not> over g" by (simp add: isGameTerminated_def)
  with traverse_untouched[OF assms(2)] have "\<not> over g1"
    by (simp add: untouched_def prepareTiles_untouched[unfolded untouched_def])
  then have "\<not> over (addRandomTile r g1)"
    using addRandomTile_fields(3)[of r g1] by (simp add: untouched_def)
  with move_not_terminated[OF assms, of r] show ?thesis
    by (simp add: draw_fields movesAvailable_cellsAvailable)
qed

subsection \<open>The grid invariant is kept by every move\<close>

lemma cellContent_addRandomTile_pos:
  "cellContent (grid (addRandomTile r g)) p = Some t \<Longrightarrow>
     tile_pos t = p \<or> cellContent (grid g) p = Some t"
  by (auto simp: addRandomTile_def insertTile_def Let_def Tile_def cellContent_def withinBounds_def
      split: if_splits)

lemma addRandomTile_consistent:
  assumes "grid_consistent (grid g)"
  shows "grid_consistent (grid (addRandomTile r g))"
proof (rule grid_consistentI)
  fix p t
  assume "cellContent (grid (addRandomTile r g)) p = Some t"
  from cellContent_addRandomTile_pos[OF this] grid_consistentD[OF assms, of p t]
  show "tile_pos t = p" by auto
qed

lemma move_consistent:
  assumes "grid_consistent (grid g)" and "move d r g = Some g'"
  shows "grid_consistent (grid g')"
proof (cases "isGameTerminated g")
  case True
  with assms show ?thesis by (simp add: move_def)
next
  case False
  with assms(2) obtain s where
    s: "traverse (getVector d) (buildTraversals (getVector d) (render_size g)) (prepareTiles g, False) = Some s"
    by (auto simp: move_def Let_def split: option.splits)
  have "grid_consistent (grid (fst (prepareTiles g, False)))"
    using assms(1) by (simp add: prepareTiles_consistent)
  from forEach_consistent[OF s[unfolded traverse_flat] this]
  have c: "grid_consistent (grid (fst s))" .
  from move_not_terminated[OF False s, of r] assms(2) c addRandomTile_consistent[OF c, of r]
  show ?thesis
    by (auto simp: draw_fields split: if_splits)
qed

text \<open>
  A session set up on an empty storage satisfies the grid invariant and has positive
  tiles; lemmas \<open>move_consistent\<close> and \<open>move_positive\<close> keep both.
\<close>

lemma Grid_invariants: "grid_consistent (Grid n) \<and> tiles_positive (Grid n)"
  by (simp add: grid_consistent_iff tiles_positive_iff cellContent_def Grid_def)

lemma addStartTiles_loop_invariants:
  "grid_consistent (grid g) \<and> tiles_positive (grid g) \<Longrightarrow>
     grid_consistent (grid (addStartTiles_loop rs i n g))
     \<and> tiles_positive (grid (addStartTiles_loop rs i n g))"
proof (induction n arbitrary: i g)
  case 0
  then show ?case by simp
next
  case (Suc n)
  from Suc.prems have "grid_consistent (grid (addRandomTile (rs i) g))
      \<and> tiles_positive (grid (addRandomTile (rs i) g))"
    by (simp add: addRandomTile_consistent addRandomTile_positive)
  from Suc.IH[OF this] show ?case by simp
qed

lemma fresh_setup_invariants:
  assumes "gameState (storage g) = None"
  shows "grid_consistent (grid (setup_game rs g)) \<and> tiles_positive (grid (setup_game rs g))"
  unfolding setup_game_fresh_fields(5)[OF assms] addStartTiles_def
  by (rule addStartTiles_loop_invariants) (simp add: Grid_invariants)

subsection \<open>Moves on which no tile can move\<close>

text \<open>
  A step at a cell whose tile stays put returns the state it was given, flag included;
  so does a traversal of such cells. Conversely a traversal that ends with the flag false
  has met only such cells.
\<close>

lemma moveTile_same_cell:
  assumes "grid_consistent (grid g)" and "cellContent (grid g) c = Some t"
  shows "moveTile g t c = g" and "updatePosition t c = t"
proof -
  from assms(2) have c: "cells (grid g) c = Some t" by (simp add: cellContent_SomeD)
  have p: "tile_pos t = c" using assms by (rule grid_consistentD)
  show tt: "updatePosition t c = t" using p[symmetric] by (simp add: updatePosition_def)
  have "((cells (grid g))(tile_pos t := None))(c := Some t) = cells (grid g)"
    using c p by (simp add: fun_eq_iff)
  then show "moveTile g t c = g"
    unfolding moveTile_def tt by simp
qed

lemma stays_put_step:
  assumes "grid_consistent (grid (fst s))" and "stays_put vector c (grid (fst s))"
  shows "move_cell vector c s = Some s"
proof (cases "cellContent (grid (fst s)) c")
  case None
  then show ?thesis by (simp add: move_cell_def)
next
  case (Some t)
  with assms(2) obtain positions where
    f: "findFarthestPosition (grid (fst s)) c vector = Some positions" "fst positions = c"
      "merge_target (cellContent (grid (fst s)) (snd positions)) t = None"
    by (auto simp: stays_put_def split: option.splits)
  have p: "tile_pos t = c" using assms(1) Some by (rule grid_consistentD)
  from Some f moveTile_same_cell[OF assms(1) Some] p show ?thesis
    by (simp add: move_cell_def Let_def positionsEqual_iff)
qed

lemma stays_put_run:
  assumes "grid_consistent (grid (fst s))"
    and "list_all (\<lambda>c. stays_put vector c (grid (fst s))) cs"
  shows "forEach (move_cell vector) cs s = Some s"
  using assms(2)
proof (induction cs)
  case Nil
  then show ?case by simp
next
  case (Cons c cs)
  then show ?case using stays_put_step[OF assms(1), of vector c] by simp
qed

lemma nothing_moves_traverse:
  assumes "grid_consistent (grid g)" and "nothing_moves d g"
  shows "traverse (getVector d) (buildTraversals (getVector d) (render_size g)) (prepareTiles g, b)
           = Some (prepareTiles g, b)"
proof -
  have "grid_consistent (grid (fst (prepareTiles g, b)))"
    using assms(1) by (simp add: prepareTiles_consistent)
  from stays_put_run[OF this, of "getVector d"] assms(2) show ?thesis
    by (simp add: traverse_flat nothing_moves_def)
qed

lemma unmoved_step_stays_put:
  assumes "vector \<noteq> (0, 0)" and "move_cell vector c s = Some s'" and "\<not> snd s'"
  shows "stays_put vector c (grid (fst s))"
  using assms(2)
proof (cases rule: move_cell_cases)
  case empty
  then show ?thesis by (simp add: stays_put_def)
next
  case (merge t farthest nxt n)
  with ffp_next_neq[OF assms(1) merge(2)] assms(3) show ?thesis
    by (simp add: positionsEqual_iff)
next
  case (slide t farthest nxt)
  with assms(3) show ?thesis
    by (simp add: stays_put_def positionsEqual_iff split: if_splits)
qed

lemma unmoved_run_stays_put:
  assumes "vector \<noteq> (0, 0)" and "grid_consistent (grid (fst s))"
    and "forEach (move_cell vector) cs s = Some s'" and "\<not> snd s'"
  shows "list_all (\<lambda>c. stays_put vector c (grid (fst s))) cs"
  using assms(3)
proof (induction cs)
  case Nil
  then show ?case by simp
next
  case (Cons c cs)
  from Cons.prems obtain s1 where s1: "move_cell vector c s = Some s1"
    "forEach (move_cell vector) cs s1 = Some s'"
    by (auto split: option.splits)
  from forEach_unmoved[OF assms(1) s1(2) assms(4)] have f1: "\<not> snd s1" by simp
  from move_cell_unmoved[OF assms(1,2) s1(1) f1] have e: "fst s1 = fst s" .
  from move_cell_unmoved_score[OF assms(1) s1(1) f1] have "\<not> snd s" by simp
  with e f1 have "s1 = s" by (simp add: prod_eq_iff)
  with s1(2) Cons.IH have "list_all (\<lambda>c. stays_put vector c (grid (fst s))) cs" by simp
  with unmoved_step_stays_put[OF assms(1) s1(1) f1] show ?case by simp
qed

lemma nothing_moves_iff:
  assumes "grid_consistent (grid g)"
  shows "nothing_moves d g \<longleftrightarrow> no_tile_moved d g"
proof
  assume "nothing_moves d g"
  from nothing_moves_traverse[OF assms this, of False] show "no_tile_moved d g"
    by (simp add: no_tile_moved_def)
next
  assume "no_tile_moved d g"
  then obtain s where s: "forEach (move_cell (getVector d))
      (traversal_cells (buildTraversals (getVector d) (render_size g))) (prepareTiles g, False) = Some s"
    "\<not> snd s"
    by (auto simp: no_tile_moved_def traverse_flat)
  have "grid_consistent (grid (fst (prepareTiles g, False)))"
    using assms by (simp add: prepareTiles_consistent)
  from unmoved_run_stays_put[OF getVector_nonzero this s] show "nothing_moves d g"
    by (simp add: nothing_moves_def)
qed

subsection \<open>What the spawn and draw leave behind\<close>

lemma draw_bestScore:
  "bestScore (storage (draw g)) = (if bestScore (storage g) < score g then score g else bestScore (storage g))"
  by (simp add: draw_def getBestScore_def setBestScore_def clearGameState_def setGameState_def
      Let_def split: prod.splits)

lemma draw_isGameTerminated: "isGameTerminated (draw g) = isGameTerminated g"
  by (simp add: isGameTerminated_def draw_fields)

lemma draw_appends:
  "\<exists>cs. calls (draw g) = calls g @ cs @
      [Draw (grid (draw g))
         \<lparr>m_score = score (draw g), m_over = over (draw g), m_won = won (draw g),
          m_bestScore = bestScore (storage (draw g)), m_terminated = isGameTerminated (draw g)\<rparr>]"
proof -
  let ?cs = "[GetBestScore] @ (if bestScore (storage g) < score g then [SetBestScore (score g)] else [])
      @ [if over g then ClearGameState else SetGameState (serialize g)] @ [GetBestScore]"
  have "calls (draw g) = calls g @ ?cs @
      [Draw (grid (draw g))
         \<lparr>m_score = score (draw g), m_over = over (draw g), m_won = won (draw g),
          m_bestScore = bestScore (storage (draw g)), m_terminated = isGameTerminated (draw g)\<rparr>]"
    unfolding draw_bestScore draw_isGameTerminated draw_fields by (simp add: draw_calls)
  then show ?thesis by blast
qed

lemma randomAvailableCell_available:
  assumes "cellsAvailable gr"
  shows "withinBounds gr (randomAvailableCell gr k) \<and> cells gr (randomAvailableCell gr k) = None"
proof -
  from assms have "availableCells gr \<noteq> []" by (simp add: cellsAvailable_def)
  then have "randomAvailableCell gr k \<in> set (availableCells gr)"
    by (simp add: randomAvailableCell_def)
  then show ?thesis by (simp add: availableCells_def in_all_cells)
qed

lemma addRandomTile_board:
  assumes "cellsAvailable (grid g)"
  shows "board (grid (addRandomTile r g)) q =
     (if q = randomAvailableCell (grid g) (cell_choice r)
      then Some (q, if below_09 r then 2 else 4) else board (grid g) q)"
  using assms randomAvailableCell_available[OF assms, of "cell_choice r"]
  by (simp add: addRandomTile_def Let_def insertTile_def Tile_def board_def cellContent_def
      withinBounds_def snapshot_def)

subsection \<open>Sequences of moves\<close>

lemma moves_append:
  "moves (ms1 @ ms2) g = (case moves ms1 g of None \<Rightarrow> None | Some g1 \<Rightarrow> moves ms2 g1)"
  by (induction ms1 arbitrary: g) (auto split: option.splits)

lemma moves_consistent:
  "grid_consistent (grid g) \<Longrightarrow> moves ms g = Some g' \<Longrightarrow> grid_consistent (grid g')"
proof (induction ms arbitrary: g)
  case Nil
  then show ?case by simp
next
  case (Cons m ms)
  from Cons.prems(2) obtain g1 where g1: "move (fst m) (snd m) g = Some g1" "moves ms g1 = Some g'"
    by (auto split: option.splits)
  from Cons.IH[OF move_consistent[OF Cons.prems(1) g1(1)] g1(2)] show ?case .
qed

section \<open>The claims\<close>

text \<open>
  Claim C1, evaluated on the code. On the full board \<open>full_game\<close> the tiles at \<open>(0, 1)\<close>
  and \<open>(0, 2)\<close> are orthogonal neighbours of equal value 16, yet \<open>tileMatchesAvailable\<close>
  and with it \<open>movesAvailable\<close> return false: the loops of \<open>tileMatchesAvailable\<close> are
  bounded by \<open>this.size\<close>, which is undefined, and never run (lemma
  \<open>tileMatchesAvailable_False\<close> shows this for every session). Bounded by the render's
  size, the same loops find the pair.
\<close>

theorem movesAvailable_ignores_equal_neighbours:
  "availableCells (grid full_game) = []
   \<and> board (grid full_game) (0, 1) = Some ((0, 1), 16)
   \<and> board (grid full_game) (0, 2) = Some ((0, 2), 16)
   \<and> tileMatches_x (Some (int (render_size full_game))) full_game 0 = True
   \<and> tileMatchesAvailable full_game = False
   \<and> movesAvailable full_game = False"
proof -
  have "availableCells (grid full_game) = []" by code_simp
  moreover have "board (grid full_game) (0, 1) = Some ((0, 1), 16)" by code_simp
  moreover have "board (grid full_game) (0, 2) = Some ((0, 2), 16)" by code_simp
  moreover have "tileMatches_x (Some (int (render_size full_game))) full_game 0 = True"
    by code_simp
  moreover have "tileMatchesAvailable full_game = False" by (rule tileMatchesAvailable_False)
  moreover have "movesAvailable full_game = False"
    using \<open>availableCells (grid full_game) = []\<close>
    by (simp add: movesAvailable_cellsAvailable cellsAvailable_def)
  ultimately show ?thesis by simp
qed

text \<open>
  Claim C2, evaluated on the code. The session \<open>crowded_game\<close> is not terminated and its
  cell \<open>(0, 0)\<close> is empty. A move to the left slides the first row into that cell and
  the spawn fills the last empty cell. The equal neighbours at \<open>(0, 1)\<close> and \<open>(0, 2)\<close>
  are still there, but the move sets \<open>over\<close>.
\<close>

theorem over_set_despite_equal_neighbours:
  "isGameTerminated crowded_game = False
   \<and> board (grid crowded_game) (0, 0) = None
   \<and> map_option (\<lambda>g'. (over g', availableCells (grid g'), board (grid g') (0, 0),
         board (grid g') (0, 1), board (grid g') (0, 2)))
       (move Left fixed_draw crowded_game)
     = Some (True, [], Some ((0, 0), 2), Some ((0, 1), 16), Some ((0, 2), 16))"
proof -
  have "isGameTerminated crowded_game = False" by code_simp
  moreover have "board (grid crowded_game) (0, 0) = None" by code_simp
  moreover have "map_option (\<lambda>g'. (over g', availableCells (grid g'), board (grid g') (0, 0),
         board (grid g') (0, 1), board (grid g') (0, 2)))
       (move Left fixed_draw crowded_game)
     = Some (True, [], Some ((0, 0), 2), Some ((0, 1), 16), Some ((0, 2), 16))"
    by code_simp
  ultimately show ?thesis by simp
qed

text \<open>
  Claim C3, evaluated on the code. After \<open>setup\<close> on an empty storage (as in the newly
  constructed \<open>fresh_game\<close>) the property \<open>keepPlaying\<close> of the session is the boolean
  false, so the call \<open>keepPlaying()\<close> raises a type error instead of running the method. The same happens in the restored session
  \<open>won_game\<close>, which has won, is not over and is terminated: the flag cannot be set
  there (lemma \<open>setup_game_keepPlaying\<close> gives the property after any \<open>setup\<close>).
\<close>

theorem keepPlaying_call_fails:
  "call_keepPlaying (setup_game rs (g\<lparr>storage := \<lparr>gameState = None, bestScore = b\<rparr>\<rparr>)) = Inl TypeError
   \<and> keepPlaying fresh_game = Data False \<and> call_keepPlaying fresh_game = Inl TypeError
   \<and> won won_game \<and> over won_game = False \<and> keepPlaying won_game = Data False
   \<and> isGameTerminated won_game \<and> call_keepPlaying won_game = Inl TypeError"
proof -
  have "keepPlaying (setup_game rs (g\<lparr>storage := \<lparr>gameState = None, bestScore = b\<rparr>\<rparr>)) = Data False"
    by (simp add: setup_game_keepPlaying)
  then have f: "call_keepPlaying (setup_game rs (g\<lparr>storage := \<lparr>gameState = None, bestScore = b\<rparr>\<rparr>))
      = Inl TypeError"
    by (rule call_keepPlaying_Data)
  have k: "keepPlaying won_game = Data False" by code_simp
  have n: "keepPlaying fresh_game = Data False"
    by (simp add: fresh_game_def new_Game_def setup_game_keepPlaying)
  have "won won_game" "over won_game = False" "isGameTerminated won_game" by code_simp+
  with f k n call_keepPlaying_Data[OF k] call_keepPlaying_Data[OF n] show ?thesis by simp
qed

text \<open>
  Claim C4. In a terminated session (\<open>over\<close>, or \<open>won\<close> while \<open>keepPlaying\<close> is not set) a
  move in any direction returns the session as it was: grid, score, the three flags, the
  storage and the log of callouts are all unchanged, so nothing was rendered or stored.
  The same holds for any sequence of moves, so once \<open>over\<close> is true no move is accepted.
\<close>

theorem terminated_move_is_noop:
  "isGameTerminated g \<Longrightarrow> move d r g = Some g \<and> moves ms g = Some g"
  by (simp add: isGameTerminated_move isGameTerminated_moves)

theorem terminated_move_is_noop_witness:
  "over lost_game \<and> isGameTerminated lost_game \<and> move Left fixed_draw lost_game = Some lost_game
   \<and> moves [(Up, fixed_draw), (Left, fixed_draw)] lost_game = Some lost_game
   \<and> won won_game \<and> isGameTerminated won_game \<and> move Right fixed_draw won_game = Some won_game"
proof -
  have l: "isGameTerminated lost_game" by code_simp
  have w: "isGameTerminated won_game" by code_simp
  have "over lost_game" "won won_game" by code_simp+
  with terminated_move_is_noop[OF l, of Left fixed_draw "[(Up, fixed_draw), (Left, fixed_draw)]"]
    terminated_move_is_noop[OF w, of Right fixed_draw "[]"] l w
  show ?thesis by simp
qed

text \<open>
  Claim C5. \<open>prepareTiles\<close> leaves no tile with a merge provenance. Whenever the
  traversal then merges the tile at a cell \<open>c\<close> into the tile at \<open>nxt\<close>, neither of the
  two carries a provenance, so neither was made by a merge of this call; the tile made
  by the merge carries one from its creation, and at the end of the traversal it still
  lies at \<open>nxt\<close> exactly as it was made: no later step merged, moved or removed it.
  The grid is assumed to satisfy the grid invariant.
\<close>

theorem merged_tile_never_merges_again:
  assumes "grid_consistent (grid g)"
    and "traversal_cells (buildTraversals (getVector d) (render_size g)) = pre @ c # post"
    and "merge_occurs d g pre c"
  shows "(\<forall>p. \<not> tagged (grid (prepareTiles g)) p) \<and>
    (\<exists>s t farthest nxt n s1 s2 merged.
       forEach (move_cell (getVector d)) pre (prepareTiles g, False) = Some s
     \<and> cellContent (grid (fst s)) c = Some t
     \<and> findFarthestPosition (grid (fst s)) c (getVector d) = Some (farthest, nxt)
     \<and> cellContent (grid (fst s)) nxt = Some n
     \<and> tile_value n = tile_value t
     \<and> mergedFrom t = None \<and> mergedFrom n = None
     \<and> move_cell (getVector d) c s = Some s1
     \<and> cellContent (grid (fst s1)) nxt = Some merged
     \<and> tile_value merged = 2 * tile_value t \<and> mergedFrom merged \<noteq> None
     \<and> forEach (move_cell (getVector d)) post s1 = Some s2
     \<and> cellContent (grid (fst s2)) nxt = Some merged)"
proof -
  let ?v = "getVector d"
  have v: "?v \<noteq> (0, 0)" by (rule getVector_nonzero)
  from assms(3) obtain s where s: "forEach (move_cell ?v) pre (prepareTiles g, False) = Some s"
    "merges_at ?v c (fst s)"
    by (rule merge_occursD)
  from s(2) obtain t farthest nxt n where m: "cellContent (grid (fst s)) c = Some t"
    "findFarthestPosition (grid (fst s)) c ?v = Some (farthest, nxt)"
    "merge_target (cellContent (grid (fst s)) nxt) t = Some n"
    by (rule merges_atD)
  from m(3) have n: "cellContent (grid (fst s)) nxt = Some n" "tile_value n = tile_value t"
    "mergedFrom n = None"
    by (auto simp: merge_target_def split: option.splits if_splits)
  have cons0: "grid_consistent (grid (fst (prepareTiles g, False)))"
    using assms(1) by (simp add: prepareTiles_consistent)
  have cons: "grid_consistent (grid (fst s))" by (rule forEach_consistent[OF s(1) cons0])
  have "\<forall>p\<in>set (c # post). \<not> tagged (grid (fst s)) p"
  proof (rule forEach_untagged[OF _ s(1)])
    show "sorted_wrt (\<lambda>c q. \<not> ahead ?v c q) (pre @ c # post)"
      by (rule traversal_suffix_sorted[OF assms(2)])
    show "\<forall>p\<in>set (pre @ c # post). \<not> tagged (grid (fst (prepareTiles g, False))) p"
      by (simp add: prepareTiles_untagged)
  qed
  then have "\<not> tagged (grid (fst s)) c" by simp
  from this m(1) have t: "mergedFrom t = None" by (rule not_taggedD)
  obtain s1 where s1: "move_cell ?v c s = Some s1" using move_cell_returns[OF v] by blast
  with m have s1': "fst s1 = fst (merge_tiles (fst s) t n nxt)"
    by (auto simp: move_cell_def Let_def)
  let ?merged = "\<lparr>tile_pos = nxt, tile_value = tile_value t * 2, previousPosition = None,
      mergedFrom = Some ((nxt, tile_value t), snapshot n)\<rparr>"
  have pos: "tile_pos t = c" using cons m(1) by (rule grid_consistentD)
  have ne: "nxt \<noteq> c" by (rule ffp_next_neq[OF v m(2)])
  have p1: "cellContent (grid (fst s1)) nxt = Some ?merged"
    using s1' pos ne cellContent_SomeD[OF n(1)] by (simp add: cellContent_merge)
  obtain s2 where s2: "forEach (move_cell ?v) post s1 = Some s2"
    using forEach_returns[of post "move_cell ?v" s1] move_cell_returns[OF v] by blast
  have "ahead ?v c nxt" using ffp_next_steps[OF m(2)] by (simp add: ahead_def)
  then have "nxt \<notin> set post" by (rule ahead_not_visited_later[OF assms(2)])
  from forEach_keeps_tagged[OF s2 move_cell_consistent[OF cons s1] p1 _ this]
  have p2: "cellContent (grid (fst s2)) nxt = Some ?merged" by simp
  have "tile_value ?merged = 2 * tile_value t" "mergedFrom ?merged \<noteq> None" by simp_all
  with s(1) m(1,2) n t s1 p1 s2 p2 prepareTiles_untagged[of g] show ?thesis by blast
qed

theorem merged_tile_never_merges_again_witness:
  "grid_consistent (grid merging_game)
   \<and> traversal_cells (buildTraversals (getVector Left) (render_size merging_game))
        = merging_pre @ (1, 0) # merging_post
   \<and> merge_occurs Left merging_game merging_pre (1, 0)
   \<and> (\<exists>s t farthest nxt n s1 s2 merged.
       forEach (move_cell (getVector Left)) merging_pre (prepareTiles merging_game, False) = Some s
     \<and> cellContent (grid (fst s)) (1, 0) = Some t
     \<and> findFarthestPosition (grid (fst s)) (1, 0) (getVector Left) = Some (farthest, nxt)
     \<and> cellContent (grid (fst s)) nxt = Some n
     \<and> tile_value n = tile_value t
     \<and> mergedFrom t = None \<and> mergedFrom n = None
     \<and> move_cell (getVector Left) (1, 0) s = Some s1
     \<and> cellContent (grid (fst s1)) nxt = Some merged
     \<and> tile_value merged = 2 * tile_value t \<and> mergedFrom merged \<noteq> None
     \<and> forEach (move_cell (getVector Left)) merging_post s1 = Some s2
     \<and> cellContent (grid (fst s2)) nxt = Some merged)
   \<and> map_option (\<lambda>g'. (board (grid g') (0, 0), board (grid g') (1, 0), board (grid g') (2, 0)))
        (move Left fixed_draw merging_game) = Some (Some ((0, 0), 4), Some ((1, 0), 4), None)"
proof -
  have a: "grid_consistent (grid merging_game)" by code_simp
  have b: "traversal_cells (buildTraversals (getVector Left) (render_size merging_game))
        = merging_pre @ (1, 0) # merging_post" by code_simp
  have c: "merge_occurs Left merging_game merging_pre (1, 0)" by code_simp
  have e: "map_option (\<lambda>g'. (board (grid g') (0, 0), board (grid g') (1, 0), board (grid g') (2, 0)))
        (move Left fixed_draw merging_game) = Some (Some ((0, 0), 4), Some ((1, 0), 4), None)"
    by code_simp
  from merged_tile_never_merges_again[OF a b c] a b c e show ?thesis by blast
qed

text \<open>
  Claim C6. Take an unterminated session whose grid satisfies the grid invariant, and a
  direction in which no tile can move: every tile the traversal visits is at its
  farthest position and has nothing to merge into. Then every step of the traversal
  leaves the session as it was, and the move returns the session as \<open>prepareTiles\<close>
  left it: the board shows the same tiles at the same positions, so no tile was spawned;
  \<open>over\<close>, \<open>won\<close>, \<open>keepPlaying\<close> and the score are unchanged; and the log of callouts
  and the storage are as before, so nothing was drawn or persisted. (Lemma
  \<open>nothing_moves_iff\<close>: these are exactly the moves whose traversal ends with \<open>moved\<close>
  false.)
\<close>

theorem unchanged_board_discards_move:
  assumes "\<not> isGameTerminated g" and "grid_consistent (grid g)" and "nothing_moves d g"
  shows "\<exists>g'. move d r g = Some g'
     \<and> (\<forall>p. board (grid g') p = board (grid g) p)
     \<and> calls g' = calls g \<and> storage g' = storage g \<and> over g' = over g \<and> score g' = score g
     \<and> won g' = won g \<and> keepPlaying g' = keepPlaying g
     \<and> g' = prepareTiles g
     \<and> (\<forall>pre post. traversal_cells (buildTraversals (getVector d) (render_size g)) = pre @ post \<longrightarrow>
           forEach (move_cell (getVector d)) pre (prepareTiles g, False) = Some (prepareTiles g, False))"
proof -
  let ?v = "getVector d"
  let ?tr = "buildTraversals ?v (render_size g)"
  have t: "traverse ?v ?tr (prepareTiles g, False) = Some (prepareTiles g, False)"
    by (rule nothing_moves_traverse[OF assms(2,3)])
  have m: "move d r g = Some (prepareTiles g)"
    using move_not_terminated[OF assms(1) t, of r] by simp
  have u: "untouched (prepareTiles g) = untouched g" by (rule prepareTiles_untouched)
  have c0: "grid_consistent (grid (fst (prepareTiles g, False)))"
    using assms(2) by (simp add: prepareTiles_consistent)
  have pre: "forEach (move_cell ?v) pre (prepareTiles g, False) = Some (prepareTiles g, False)"
    if "traversal_cells ?tr = pre @ post" for pre post
  proof (rule stays_put_run[OF c0])
    from assms(3) that show "list_all (\<lambda>c. stays_put ?v c (grid (fst (prepareTiles g, False)))) pre"
      by (simp add: nothing_moves_def)
  qed
  show ?thesis
  proof (intro exI[of _ "prepareTiles g"] conjI allI impI)
    show "move d r g = Some (prepareTiles g)" by (rule m)
    show "board (grid (prepareTiles g)) p = board (grid g) p" for p by (rule prepareTiles_board)
    show "calls (prepareTiles g) = calls g" "storage (prepareTiles g) = storage g"
      "over (prepareTiles g) = over g" "keepPlaying (prepareTiles g) = keepPlaying g"
      using u by (simp_all add: untouched_def)
    show "score (prepareTiles g) = score g" "won (prepareTiles g) = won g"
      by (rule prepareTiles_fields)+
    show "prepareTiles g = prepareTiles g" by simp
    show "forEach (move_cell ?v) pre (prepareTiles g, False) = Some (prepareTiles g, False)"
      if "traversal_cells ?tr = pre @ post" for pre post
      using that by (rule pre)
  qed
qed

theorem unchanged_board_discards_move_witness:
  "\<not> isGameTerminated settled_game \<and> grid_consistent (grid settled_game)
   \<and> nothing_moves Up settled_game
   \<and> (\<exists>g'. move Up fixed_draw settled_game = Some g'
     \<and> (\<forall>p. board (grid g') p = board (grid settled_game) p)
     \<and> calls g' = calls settled_game \<and> storage g' = storage settled_game \<and> over g' = over settled_game
     \<and> score g' = score settled_game
     \<and> won g' = won settled_game \<and> keepPlaying g' = keepPlaying settled_game
     \<and> g' = prepareTiles settled_game)
   \<and> nothing_moves Left settled_game = False"
proof -
  have a: "\<not> isGameTerminated settled_game" by code_simp
  have b: "nothing_moves Up settled_game" by code_simp
  have c: "grid_consistent (grid settled_game)" by code_simp
  have e: "nothing_moves Left settled_game = False" by code_simp
  from unchanged_board_discards_move[OF a c b, of fixed_draw] a b c e show ?thesis by blast
qed

text \<open>
  Claim C7. Take a session whose grid satisfies the grid invariant and whose tiles have
  positive values, and a sequence of moves that stays in the range where the score is
  computed exactly. The sequence returns; the score after every prefix of it is at least
  the score at the start and at most the score at the end; and the invariant and the
  positive values are kept. A merge adds to the score exactly the value of the tile it
  makes, twice the value of the moving tile, as long as the sum stays in the exact range.
\<close>

theorem score_never_decreases:
  assumes "grid_consistent (grid g)" and "tiles_positive (grid g)" and "scores_exact ms g"
  shows "(\<exists>g'. moves ms g = Some g' \<and> score g \<le> score g' \<and> score g' \<le> max_exact
            \<and> tiles_positive (grid g') \<and> grid_consistent (grid g')
            \<and> (\<forall>ms1 ms2. ms = ms1 @ ms2 \<longrightarrow>
                  (\<exists>g1. moves ms1 g = Some g1 \<and> moves ms2 g1 = Some g'
                        \<and> score g \<le> score g1 \<and> score g1 \<le> score g')))
    \<and> (0 \<le> score h \<and> 0 < tile_value t \<and> score h + 2 * tile_value t \<le> max_exact \<longrightarrow>
          score (fst (merge_tiles h t n p)) = score h + 2 * tile_value t)"
proof -
  obtain g' where g': "moves ms g = Some g'" using moves_returns by blast
  from moves_positive[OF assms(2) g'] have a: "score g \<le> score g'" "tiles_positive (grid g')"
    by simp_all
  from assms(3) g' have b: "score g' \<le> max_exact" by (simp add: scores_exact_def)
  have c: "grid_consistent (grid g')" by (rule moves_consistent[OF assms(1) g'])
  have d: "\<exists>g1. moves ms1 g = Some g1 \<and> moves ms2 g1 = Some g'
      \<and> score g \<le> score g1 \<and> score g1 \<le> score g'" if "ms = ms1 @ ms2" for ms1 ms2
  proof -
    from g' that obtain g1 where g1: "moves ms1 g = Some g1" "moves ms2 g1 = Some g'"
      by (auto simp: moves_append split: option.splits)
    from moves_positive[OF assms(2) g1(1)] have "score g \<le> score g1" "tiles_positive (grid g1)"
      by simp_all
    with moves_positive[OF _ g1(2)] g1 show ?thesis by auto
  qed
  have e: "score (fst (merge_tiles h t n p)) = score h + 2 * tile_value t"
    by (simp add: merge_tiles_simps)
  from g' a b c d e show ?thesis by blast
qed

theorem score_never_decreases_witness:
  "grid_consistent (grid merging_game) \<and> tiles_positive (grid merging_game)
   \<and> scores_exact [(Left, fixed_draw), (Up, fixed_draw)] merging_game
   \<and> (\<exists>g'. moves [(Left, fixed_draw), (Up, fixed_draw)] merging_game = Some g'
          \<and> score merging_game \<le> score g' \<and> score g' \<le> max_exact
          \<and> tiles_positive (grid g') \<and> grid_consistent (grid g'))
   \<and> score (fst (merge_tiles merging_game (Tile (1, 0) 2) (Tile (0, 0) 2) (0, 0))) = 104
   \<and> score merging_game = 100
   \<and> map_option score (moves [(Left, fixed_draw)] merging_game) = Some 120
   \<and> map_option score (moves [(Left, fixed_draw), (Up, fixed_draw)] merging_game) = Some 136"
proof -
  have c: "grid_consistent (grid merging_game)" by code_simp
  have p: "tiles_positive (grid merging_game)" by code_simp
  have x: "scores_exact [(Left, fixed_draw), (Up, fixed_draw)] merging_game" by code_simp
  have s: "score merging_game = 100" by code_simp
  have v: "tile_value (Tile (1, 0) 2) = 2" by (simp add: Tile_def)
  have b: "(100::int) + 2 * 2 \<le> max_exact" by (simp add: max_exact_def)
  have m1: "map_option score (moves [(Left, fixed_draw)] merging_game) = Some 120" by code_simp
  have m2: "map_option score (moves [(Left, fixed_draw), (Up, fixed_draw)] merging_game) = Some 136"
    by code_simp
  from score_never_decreases[OF c p x, of merging_game "Tile (1, 0) 2" "Tile (0, 0) 2" "(0, 0)"]
  have "\<exists>g'. moves [(Left, fixed_draw), (Up, fixed_draw)] merging_game = Some g'
          \<and> score merging_game \<le> score g' \<and> score g' \<le> max_exact
          \<and> tiles_positive (grid g') \<and> grid_consistent (grid g')"
    and "score (fst (merge_tiles merging_game (Tile (1, 0) 2) (Tile (0, 0) 2) (0, 0))) = 104"
    using s v b by auto
  with c p x s m1 m2 show ?thesis by blast
qed

text \<open>
  Claim C8. Let the storage of any session \<open>h\<close> hold the serialized state of a session
  \<open>g\<close>. After \<open>setup\<close>, \<open>h\<close> has the score and the flags \<open>over\<close>, \<open>won\<close> and \<open>keepPlaying\<close>
  of \<open>g\<close>, a grid of the same size, and at every position a tile of the same value and
  position as \<open>g\<close> has there, or none where \<open>g\<close> has none, whatever \<open>h\<close> held before.
\<close>

theorem serialize_restore_roundtrip:
  assumes "gameState (storage h) = Some (serialize g)"
  shows "score (setup_game rs h) = score g
   \<and> over (setup_game rs h) = over g
   \<and> won (setup_game rs h) = won g
   \<and> keepPlaying (setup_game rs h) = keepPlaying g
   \<and> grid_size (grid (setup_game rs h)) = grid_size (grid g)
   \<and> (\<forall>p. board (grid (setup_game rs h)) p = board (grid g) p)"
proof -
  note r = setup_game_restores[OF assms, of rs]
  have s: "s_size (serialize_grid (grid g)) = grid_size (grid g)"
    by (simp add: serialize_grid_def)
  show ?thesis
    unfolding r by (simp add: draw_fields serialize_def s board_Grid_fromState)
       (simp add: Grid_fromState_def)
qed

theorem serialize_restore_roundtrip_witness:
  "gameState (storage other_session) = Some (serialize merging_game)
   \<and> score other_session = 0 \<and> score merging_game = 100
   \<and> board (grid other_session) (0, 3) = None \<and> board (grid merging_game) (0, 3) = Some ((0, 3), 8)
   \<and> score (setup_game (\<lambda>i. fixed_draw) other_session) = score merging_game
   \<and> over (setup_game (\<lambda>i. fixed_draw) other_session) = over merging_game
   \<and> won (setup_game (\<lambda>i. fixed_draw) other_session) = won merging_game
   \<and> keepPlaying (setup_game (\<lambda>i. fixed_draw) other_session) = keepPlaying merging_game
   \<and> grid_size (grid (setup_game (\<lambda>i. fixed_draw) other_session)) = grid_size (grid merging_game)
   \<and> (\<forall>p. board (grid (setup_game (\<lambda>i. fixed_draw) other_session)) p = board (grid merging_game) p)"
proof -
  have a: "gameState (storage other_session) = Some (serialize merging_game)"
    by (simp add: other_session_def)
  have "score other_session = 0" "score merging_game = 100"
    "board (grid other_session) (0, 3) = None" "board (grid merging_game) (0, 3) = Some ((0, 3), 8)"
    by code_simp+
  with serialize_restore_roundtrip[OF a, of "\<lambda>i. fixed_draw"] a show ?thesis by blast
qed



text \<open>
  Claim C10. Take an unterminated session whose grid satisfies the grid invariant, and a
  move whose traversal merges the tile at a cell \<open>c\<close>. The merge target \<open>nxt\<close> lies at
  least one step from \<open>c\<close> along the direction vector, the removed tile's position is set
  to \<open>nxt\<close>, the step leaves \<open>moved\<close> true and so does the whole traversal. The move then
  returns a session in which a new tile of value 2 or 4 stands on a cell that the
  traversal had left empty, every other cell being as the traversal left it, and whose
  log of callouts is the old log followed by new calls, the last of which is \<open>Draw\<close>
  with the resulting grid and flags.
\<close>

theorem merge_marks_board_changed:
  assumes "\<not> isGameTerminated g" and "grid_consistent (grid g)"
    and "traversal_cells (buildTraversals (getVector d) (render_size g)) = pre @ c # post"
    and "merge_occurs d g pre c"
  shows "\<exists>s t farthest nxt n s1 g1 g' cs.
      forEach (move_cell (getVector d)) pre (prepareTiles g, False) = Some s
    \<and> cellContent (grid (fst s)) c = Some t
    \<and> findFarthestPosition (grid (fst s)) c (getVector d) = Some (farthest, nxt)
    \<and> merge_target (cellContent (grid (fst s)) nxt) t = Some n
    \<and> (\<exists>k. nxt = steps_from c (getVector d) (Suc k)) \<and> nxt \<noteq> c
    \<and> tile_pos (snd (merge_tiles (fst s) t n nxt)) = nxt
    \<and> move_cell (getVector d) c s = Some s1 \<and> snd s1
    \<and> traverse (getVector d) (buildTraversals (getVector d) (render_size g)) (prepareTiles g, False)
        = Some (g1, True)
    \<and> move d r g = Some g'
    \<and> withinBounds (grid g1) (randomAvailableCell (grid g1) (cell_choice r))
    \<and> board (grid g1) (randomAvailableCell (grid g1) (cell_choice r)) = None
    \<and> board (grid g') (randomAvailableCell (grid g1) (cell_choice r))
        = Some (randomAvailableCell (grid g1) (cell_choice r), if below_09 r then 2 else 4)
    \<and> (\<forall>q. q \<noteq> randomAvailableCell (grid g1) (cell_choice r) \<longrightarrow>
           board (grid g') q = board (grid g1) q)
    \<and> calls g' = calls g @ cs @
        [Draw (grid g')
           \<lparr>m_score = score g', m_over = over g', m_won = won g',
            m_bestScore = bestScore (storage g'), m_terminated = isGameTerminated g'\<rparr>]"
proof -
  let ?v = "getVector d"
  let ?tr = "buildTraversals ?v (render_size g)"
  have v: "?v \<noteq> (0, 0)" by (rule getVector_nonzero)
  from assms(4) obtain s where s: "forEach (move_cell ?v) pre (prepareTiles g, False) = Some s"
    "merges_at ?v c (fst s)"
    by (rule merge_occursD)
  from s(2) obtain t farthest nxt n where m: "cellContent (grid (fst s)) c = Some t"
    "findFarthestPosition (grid (fst s)) c ?v = Some (farthest, nxt)"
    "merge_target (cellContent (grid (fst s)) nxt) t = Some n"
    by (rule merges_atD)
  obtain s1 where s1: "move_cell ?v c s = Some s1" using move_cell_returns[OF v] by blast
  have moved: "snd s1" by (rule move_cell_merge_moved[OF v s1 m])
  obtain s2 where s2: "forEach (move_cell ?v) post s1 = Some s2"
    using forEach_returns[of post "move_cell ?v" s1] move_cell_returns[OF v] by blast
  have moved2: "snd s2" by (rule forEach_moved_mono[OF s2 moved])
  have t: "traverse ?v ?tr (prepareTiles g, False) = Some s2"
    unfolding traverse_flat assms(3) forEach_split using s(1) s1 s2 by blast
  then have t': "traverse ?v ?tr (prepareTiles g, False) = Some (fst s2, True)"
    using moved2 by (simp add: prod_eq_iff)
  define g2 where "g2 = addRandomTile r (fst s2)"
  define g3 where "g3 = (if \<not> movesAvailable g2 then g2\<lparr>over := True\<rparr> else g2)"
  have mv: "move d r g = Some (draw g3)"
    using move_not_terminated[OF assms(1) t, of r] moved2 by (simp add: g3_def g2_def)
  have av: "cellsAvailable (grid (fst s2))"
  proof -
    have "grid_consistent (grid (fst (prepareTiles g, False)))"
      using assms(2) by (simp add: prepareTiles_consistent)
    from forEach_consistent[OF s(1) this] have cs: "grid_consistent (grid (fst s))" .
    from move_cell_merge_cellsAvailable[OF cs s1 m] move_cell_consistent[OF cs s1]
    show ?thesis using forEach_cellsAvailable[OF s2] by simp
  qed
  let ?p = "randomAvailableCell (grid (fst s2)) (cell_choice r)"
  have gr: "grid (draw g3) = grid g2" by (simp add: draw_fields g3_def)
  from randomAvailableCell_available[OF av, of "cell_choice r"]
  have w: "withinBounds (grid (fst s2)) ?p" and e: "board (grid (fst s2)) ?p = None"
    by (simp_all add: board_def cellContent_def)
  have b1: "board (grid (draw g3)) ?p = Some (?p, if below_09 r then 2 else 4)"
    unfolding gr g2_def by (simp add: addRandomTile_board[OF av])
  have b2: "\<forall>q. q \<noteq> ?p \<longrightarrow> board (grid (draw g3)) q = board (grid (fst s2)) q"
    unfolding gr g2_def by (simp add: addRandomTile_board[OF av])
  have "untouched (fst s2) = untouched g"
    using traverse_untouched[OF t] by (simp add: prepareTiles_untouched)
  then have "calls g2 = calls g"
    using addRandomTile_fields(3)[of r "fst s2"] by (simp add: untouched_def g2_def)
  then have c3: "calls g3 = calls g" by (simp add: g3_def)
  from draw_appends[of g3] obtain cs where
    cl: "calls (draw g3) = calls g @ cs @
        [Draw (grid (draw g3))
           \<lparr>m_score = score (draw g3), m_over = over (draw g3), m_won = won (draw g3),
            m_bestScore = bestScore (storage (draw g3)), m_terminated = isGameTerminated (draw g3)\<rparr>]"
    unfolding c3 by blast
  have k: "\<exists>k. nxt = steps_from c ?v (Suc k)" by (rule ffp_next_steps[OF m(2)])
  have ne: "nxt \<noteq> c" by (rule ffp_next_neq[OF v m(2)])
  have tp: "tile_pos (snd (merge_tiles (fst s) t n nxt)) = nxt" by (simp add: merge_tiles_simps)
  from s(1) m k ne tp s1 moved t' mv w e b1 b2 cl show ?thesis by blast
qed

theorem merge_marks_board_changed_witness:
  "\<not> isGameTerminated merging_game \<and> grid_consistent (grid merging_game)
   \<and> traversal_cells (buildTraversals (getVector Left) (render_size merging_game))
        = merging_pre @ (1, 0) # merging_post
   \<and> merge_occurs Left merging_game merging_pre (1, 0)
   \<and> (\<exists>s t farthest nxt n s1 g1 g' cs.
      forEach (move_cell (getVector Left)) merging_pre (prepareTiles merging_game, False) = Some s
    \<and> cellContent (grid (fst s)) (1, 0) = Some t
    \<and> findFarthestPosition (grid (fst s)) (1, 0) (getVector Left) = Some (farthest, nxt)
    \<and> merge_target (cellContent (grid (fst s)) nxt) t = Some n
    \<and> (\<exists>k. nxt = steps_from (1, 0) (getVector Left) (Suc k)) \<and> nxt \<noteq> (1, 0)
    \<and> tile_pos (snd (merge_tiles (fst s) t n nxt)) = nxt
    \<and> move_cell (getVector Left) (1, 0) s = Some s1 \<and> snd s1
    \<and> traverse (getVector Left) (buildTraversals (getVector Left) (render_size merging_game))
         (prepareTiles merging_game, False) = Some (g1, True)
    \<and> move Left fixed_draw merging_game = Some g'
    \<and> withinBounds (grid g1) (randomAvailableCell (grid g1) (cell_choice fixed_draw))
    \<and> board (grid g1) (randomAvailableCell (grid g1) (cell_choice fixed_draw)) = None
    \<and> board (grid g') (randomAvailableCell (grid g1) (cell_choice fixed_draw))
        = Some (randomAvailableCell (grid g1) (cell_choice fixed_draw),
                if below_09 fixed_draw then 2 else 4)
    \<and> (\<forall>q. q \<noteq> randomAvailableCell (grid g1) (cell_choice fixed_draw) \<longrightarrow>
           board (grid g') q = board (grid g1) q)
    \<and> calls g' = calls merging_game @ cs @
        [Draw (grid g')
           \<lparr>m_score = score g', m_over = over g', m_won = won g',
            m_bestScore = bestScore (storage g'), m_terminated = isGameTerminated g'\<rparr>])
   \<and> board (grid merging_game) (1, 1) = None
   \<and> map_option (\<lambda>g'. (board (grid g') (1, 1), length (calls g')))
        (move Left fixed_draw merging_game) = Some (Some ((1, 1), 2), 11)
   \<and> length (calls merging_game) = 6"
proof -
  have a: "\<not> isGameTerminated merging_game" by code_simp
  have b: "traversal_cells (buildTraversals (getVector Left) (render_size merging_game))
        = merging_pre @ (1, 0) # merging_post" by code_simp
  have c: "merge_occurs Left merging_game merging_pre (1, 0)" by code_simp
  have e: "grid_consistent (grid merging_game)" by code_simp
  have f: "board (grid merging_game) (1, 1) = None" by code_simp
  have h: "map_option (\<lambda>g'. (board (grid g') (1, 1), length (calls g')))
        (move Left fixed_draw merging_game) = Some (Some ((1, 1), 2), 11)" by code_simp
  have i: "length (calls merging_game) = 6" by code_simp
  from merge_marks_board_changed[OF a e b c, of fixed_draw] e a b c f h i show ?thesis by blast
qed

end
